theory Spec2Isabelle
  imports Main "HOL-Library.Word"
begin

unbundle bit_operations_syntax

section \<open>Byte primitives (cbor/codec.go)\<close>

type_synonym byte = "8 word"

text \<open>Major types: \<^verbatim>\<open>type0 byte = iota << 5\<close> and the seven constants after it.\<close>

definition type0 :: byte where "type0 = push_bit 5 0"
definition type1 :: byte where "type1 = push_bit 5 1"
definition type2 :: byte where "type2 = push_bit 5 2"
definition type3 :: byte where "type3 = push_bit 5 3"
definition type4 :: byte where "type4 = push_bit 5 4"
definition type5 :: byte where "type5 = push_bit 5 5"
definition type6 :: byte where "type6 = push_bit 5 6"
definition type7 :: byte where "type7 = push_bit 5 7"

text \<open>Associated information for type0 and type1: \<^verbatim>\<open>info24 byte = iota + 24\<close>.\<close>

definition info24 :: byte where "info24 = 24"
definition info25 :: byte where "info25 = 25"
definition info26 :: byte where "info26 = 26"
definition info27 :: byte where "info27 = 27"
definition indefiniteLength :: byte where "indefiniteLength = 31"

text \<open>Simple types for type7: \<^verbatim>\<open>simpleTypeFalse byte = iota + 20\<close>.\<close>

definition simpleTypeFalse :: byte where "simpleTypeFalse = 20"
definition simpleTypeTrue :: byte where "simpleTypeTrue = 21"
definition simpleTypeNil :: byte where "simpleTypeNil = 22"
definition simpleUndefined :: byte where "simpleUndefined = 23"
definition simpleTypeByte :: byte where "simpleTypeByte = 24"
definition flt16 :: byte where "flt16 = 25"
definition flt32 :: byte where "flt32 = 26"
definition flt64 :: byte where "flt64 = 27"
definition itemBreak :: byte where "itemBreak = 31"

text \<open>
  Modelled from the spec: the constant \<^verbatim>\<open>MaxSmallInt\<close> is declared outside the
  source files at hand. The spec gives 0..23 as the range of the immediate short value,
  and the comments of \<^verbatim>\<open>encodeUint8\<close> (\<^verbatim>\<open>// 0..23\<close>, \<^verbatim>\<open>// 24..255\<close>) agree.
\<close>

definition MaxSmallInt :: byte where "MaxSmallInt = 23"

definition major :: "byte \<Rightarrow> byte" where
  "major b = b AND 0xe0"

definition info :: "byte \<Rightarrow> byte" where
  "info b = b AND 0x1f"

definition hdr :: "byte \<Rightarrow> byte \<Rightarrow> byte" where
  "hdr mjr ifo = (mjr AND 0xe0) OR (ifo AND 0x1f)"

text \<open>\<^verbatim>\<open>binary.BigEndian.PutUint16/32/64\<close>: the bytes stored, most significant first.\<close>

definition PutUint16 :: "16 word \<Rightarrow> byte list" where
  "PutUint16 v = [ucast (drop_bit 8 v), ucast v]"

definition PutUint32 :: "32 word \<Rightarrow> byte list" where
  "PutUint32 v = [ucast (drop_bit 24 v), ucast (drop_bit 16 v), ucast (drop_bit 8 v), ucast v]"

definition PutUint64 :: "64 word \<Rightarrow> byte list" where
  "PutUint64 v = [ucast (drop_bit 56 v), ucast (drop_bit 48 v), ucast (drop_bit 40 v),
                  ucast (drop_bit 32 v), ucast (drop_bit 24 v), ucast (drop_bit 16 v),
                  ucast (drop_bit 8 v), ucast v]"

section \<open>Encode functions\<close>

text \<open>
  Every encode function of the source stores its output at \<^verbatim>\<open>buf[0..n)\<close> and returns
  \<^verbatim>\<open>n\<close>. The model returns the list of the bytes stored; \<^verbatim>\<open>n\<close> is its length. The
  caller provides a buffer that is large enough. Signed Go integers are words read
  with the signed order \<open><s\<close>; a Go conversion between integer types of different
  width is \<open>ucast\<close> when it truncates.
\<close>

definition encodeNull :: "byte list" where
  "encodeNull = [hdr type7 simpleTypeNil]"

definition encodeTrue :: "byte list" where
  "encodeTrue = [hdr type7 simpleTypeTrue]"

definition encodeFalse :: "byte list" where
  "encodeFalse = [hdr type7 simpleTypeFalse]"

definition encodeUint8 :: "byte \<Rightarrow> byte list" where
  "encodeUint8 item =
     (if item \<le> MaxSmallInt then [hdr type0 item]
      else [hdr type0 info24, item])"

definition encodeInt8 :: "8 word \<Rightarrow> byte list" where
  "encodeInt8 item =
     (if MaxSmallInt <s item then [hdr type0 info24, item]
      else if item <s - MaxSmallInt then [hdr type1 info24, - (item + 1)]
      else if item <s 0 then [hdr type1 (- (item + 1))]
      else [hdr type0 item])"

definition encodeUint16 :: "16 word \<Rightarrow> byte list" where
  "encodeUint16 item =
     (if item < 256 then encodeUint8 (ucast item)
      else hdr type0 info25 # PutUint16 item)"

definition encodeInt16 :: "16 word \<Rightarrow> byte list" where
  "encodeInt16 item =
     (if 127 <s item then
        (if item <s 256 then [hdr type0 info24, ucast item]
         else hdr type0 info25 # PutUint16 item)
      else if item <s - 128 then
        (if - 256 <s item then [hdr type1 info24, ucast (- (item + 1))]
         else hdr type1 info25 # PutUint16 (- (item + 1)))
      else encodeInt8 (ucast item))"

definition encodeUint32 :: "32 word \<Rightarrow> byte list" where
  "encodeUint32 item =
     (if item < 65536 then encodeUint16 (ucast item)
      else hdr type0 info26 # PutUint32 item)"

definition encodeInt32 :: "32 word \<Rightarrow> byte list" where
  "encodeInt32 item =
     (if 32767 <s item then
        (if item <s 65536 then hdr type0 info25 # PutUint16 (ucast item)
         else hdr type0 info26 # PutUint32 item)
      else if item <s - 32768 then
        (if - 65536 <s item then hdr type1 info25 # PutUint16 (ucast (- (item + 1)))
         else hdr type1 info26 # PutUint32 (- (item + 1)))
      else encodeInt16 (ucast item))"

definition encodeUint64 :: "64 word \<Rightarrow> byte list" where
  "encodeUint64 item =
     (if item < 4294967296 then encodeUint32 (ucast item)
      else hdr type0 info27 # PutUint64 item)"

definition encodeInt64 :: "64 word \<Rightarrow> byte list" where
  "encodeInt64 item =
     (if 2147483647 <s item then
        (if item <s 4294967296 then hdr type0 info26 # PutUint32 (ucast item)
         else hdr type0 info27 # PutUint64 item)
      else if item <s - 2147483648 then
        (if - 4294967296 <s item then hdr type1 info26 # PutUint32 (ucast (- (item + 1)))
         else hdr type1 info27 # PutUint64 (- (item + 1)))
      else encodeInt32 (ucast item))"

text \<open>
  Floats are carried as their IEEE-754 bit patterns: \<^verbatim>\<open>math.Float32bits\<close>,
  \<^verbatim>\<open>math.Float64bits\<close> and their inverses are the identity on the pattern.
\<close>

definition encodeFloat32 :: "32 word \<Rightarrow> byte list" where
  "encodeFloat32 item = hdr type7 flt32 # PutUint32 item"

definition encodeFloat64 :: "64 word \<Rightarrow> byte list" where
  "encodeFloat64 item = hdr type7 flt64 # PutUint64 item"

text \<open>\<^verbatim>\<open>buf[0] = (buf[0] & 0x1f) | typeN\<close>: fix the type of the header just written.\<close>

definition retag :: "byte \<Rightarrow> byte list \<Rightarrow> byte list" where
  "retag t buf = (case buf of [] \<Rightarrow> [] | b # bs \<Rightarrow> ((b AND 0x1f) OR t) # bs)"

definition encodeBytes :: "byte list \<Rightarrow> byte list" where
  "encodeBytes item = retag type2 (encodeUint64 (of_nat (length item))) @ item"

definition encodeBytesStart :: "byte list" where
  "encodeBytesStart = [hdr type2 indefiniteLength]"

definition encodeText :: "byte list \<Rightarrow> byte list" where
  "encodeText item = retag type3 (encodeBytes item)"

definition encodeTextStart :: "byte list" where
  "encodeTextStart = [hdr type3 indefiniteLength]"

definition encodeArrayStart :: "byte list" where
  "encodeArrayStart = [hdr type4 indefiniteLength]"

definition encodeMapStart :: "byte list" where
  "encodeMapStart = [hdr type5 indefiniteLength]"

definition encodeBreakStop :: "byte list" where
  "encodeBreakStop = [hdr type7 itemBreak]"

definition encodeUndefined :: "byte list" where
  "encodeUndefined = [hdr type7 simpleUndefined]"

definition encodeSimpleType :: "byte \<Rightarrow> byte list" where
  "encodeSimpleType typcode =
     (if typcode < 32 then [hdr type7 typcode]
      else [hdr type7 simpleTypeByte, typcode])"

section \<open>Tagged items\<close>

text \<open>
  Modelled from the spec: \<^verbatim>\<open>encodeTag\<close> is defined outside the source files at hand. The
  spec has the tag number encoded like a type-0 integer under major type 6, by the
  same \<^emph>\<open>write as type-0 then retag\<close> step as the other headers.
\<close>

definition encodeTag :: "64 word \<Rightarrow> byte list" where
  "encodeTag tag = retag type6 (encodeUint64 tag)"

text \<open>
  Modelled from the spec: the tag numbers are declared outside the source files at
  hand. The spec's table of tags gives 0 to an RFC 3339 text datetime, 1 to epoch
  seconds, 2 and 3 to the positive and the negative arbitrary-precision integers, 4 to
  a decimal fraction, 5 to a binary float, 24 to embedded CBOR, 35 to a regular
  expression and 55799 to the self-describe prefix.
\<close>

definition tagDateTime :: "64 word" where "tagDateTime = 0"
definition tagEpoch :: "64 word" where "tagEpoch = 1"
definition tagPosBignum :: "64 word" where "tagPosBignum = 2"
definition tagNegBignum :: "64 word" where "tagNegBignum = 3"
definition tagDecimalFraction :: "64 word" where "tagDecimalFraction = 4"
definition tagBigFloat :: "64 word" where "tagBigFloat = 5"
definition tagCborEnc :: "64 word" where "tagCborEnc = 24"
definition tagRegexp :: "64 word" where "tagRegexp = 35"
definition tagCborPrefix :: "64 word" where "tagCborPrefix = 55799"

text \<open>
  Modelled from the spec: the big-endian magnitude of an arbitrary-precision integer,
  that is the bytes of a natural number, the most significant first and none for zero
  (\<^verbatim>\<open>Bytes\<close> of the library \<^verbatim>\<open>math/big\<close>), and the number that bytes stand for (\<^verbatim>\<open>SetBytes\<close>).
\<close>

fun be_bytes :: "nat \<Rightarrow> byte list" where
  "be_bytes n = (if n = 0 then [] else be_bytes (n div 256) @ [of_nat (n mod 256)])"

declare be_bytes.simps [simp del]

definition be_value :: "byte list \<Rightarrow> nat" where
  "be_value bs = foldl (\<lambda>a b. a * 256 + unat b) 0 bs"

text \<open>
  Modelled from the spec: the encoders of the tagged kinds (\<^verbatim>\<open>encodeDateTime\<close>,
  \<^verbatim>\<open>encodeBigNum\<close>, \<^verbatim>\<open>encodeDecimalFraction\<close>, \<^verbatim>\<open>encodeBigFloat\<close>, \<^verbatim>\<open>encodeCbor\<close>, \<^verbatim>\<open>encodeRegexp\<close>,
  \<^verbatim>\<open>encodeCborPrefix\<close>) are defined outside the source files at hand, and so are the types
  they take. The spec has a tagged item encoded as the header of its tag followed by
  the encoding of its content, and gives the content of each tag:

    \<^item> tag 0, an RFC 3339 text datetime: a text string. A \<^verbatim>\<open>time.Time\<close> is taken as its
      RFC 3339 text; the formatting and the parsing of the \<^verbatim>\<open>time\<close> library are not part
      of the model.
    \<^item> tag 1, epoch seconds, integer or float: an \<^verbatim>\<open>Epoch\<close> is taken as the 64-bit signed
      integer of its seconds, an \<^verbatim>\<open>EpochMicro\<close> as the bits of the 64-bit float of its
      seconds with their fractional part.
    \<^item> tags 2 and 3, an arbitrary-precision integer: a byte string, the big-endian
      magnitude of the integer, under tag 2 when it is not negative and under tag 3
      when it is.
    \<^item> tags 4 and 5, a decimal fraction and a binary float: an array of the two items
      exponent and mantissa, taken as 64-bit signed integers.
    \<^item> tag 24, embedded CBOR: a byte string.
    \<^item> tag 35, a regular expression: a text string. A \<^verbatim>\<open>*regexp.Regexp\<close> is taken as the
      text of its expression.
    \<^item> tag 55799, the self-describe prefix: the binary blob it identifies, a byte
      string.

  The content is written by the encoder that \<^verbatim>\<open>encode\<close> has for it: \<^verbatim>\<open>encodeText\<close> for a
  text string, \<^verbatim>\<open>encodeBytes\<close> for a byte string, \<^verbatim>\<open>encodeInt64\<close> and \<^verbatim>\<open>encodeFloat64\<close> for the
  numbers, and for the array of two items the header that \<^verbatim>\<open>encodeArray\<close> writes, followed
  by the two items.
\<close>

definition encodeDateTime :: "byte list \<Rightarrow> byte list" where
  "encodeDateTime text = encodeTag tagDateTime @ encodeText text"

text \<open>Modelled from the spec: tag 1 before the integer of the epoch seconds.\<close>

definition encodeEpoch :: "64 word \<Rightarrow> byte list" where
  "encodeEpoch seconds = encodeTag tagEpoch @ encodeInt64 seconds"

text \<open>Modelled from the spec: tag 1 before the float of the epoch seconds.\<close>

definition encodeEpochMicro :: "64 word \<Rightarrow> byte list" where
  "encodeEpochMicro seconds = encodeTag tagEpoch @ encodeFloat64 seconds"

text \<open>Modelled from the spec: tag 2 or 3 before the byte string of the magnitude.\<close>

definition encodeBigNum :: "int \<Rightarrow> byte list" where
  "encodeBigNum num =
     (if 0 \<le> num then encodeTag tagPosBignum @ encodeBytes (be_bytes (nat num))
      else encodeTag tagNegBignum @ encodeBytes (be_bytes (nat (- num))))"

text \<open>Modelled from the spec: tag 4 before the array of exponent and mantissa.\<close>

definition encodeDecimalFraction :: "64 word \<Rightarrow> 64 word \<Rightarrow> byte list" where
  "encodeDecimalFraction e m =
     encodeTag tagDecimalFraction @ retag type4 (encodeUint64 2) @ encodeInt64 e @ encodeInt64 m"

text \<open>Modelled from the spec: tag 5 before the array of exponent and mantissa.\<close>

definition encodeBigFloat :: "64 word \<Rightarrow> 64 word \<Rightarrow> byte list" where
  "encodeBigFloat e m =
     encodeTag tagBigFloat @ retag type4 (encodeUint64 2) @ encodeInt64 e @ encodeInt64 m"

text \<open>Modelled from the spec: tag 24 before the byte string of the embedded CBOR.\<close>

definition encodeCbor :: "byte list \<Rightarrow> byte list" where
  "encodeCbor item = encodeTag tagCborEnc @ encodeBytes item"

text \<open>Modelled from the spec: tag 35 before the text string of the expression.\<close>

definition encodeRegexp :: "byte list \<Rightarrow> byte list" where
  "encodeRegexp expr = encodeTag tagRegexp @ encodeText expr"

text \<open>Modelled from the spec: tag 55799 before the byte string of the blob.\<close>

definition encodeCborPrefix :: "byte list \<Rightarrow> byte list" where
  "encodeCborPrefix item = encodeTag tagCborPrefix @ encodeBytes item"

section \<open>Values and errors\<close>

text \<open>
  The panics of the package. \<^verbatim>\<open>RuntimeError\<close> stands for a panic of the Go runtime
  itself: an index or a slice bound out of range, or \<^verbatim>\<open>make\<close> with an impossible length.
\<close>

datatype error =
    ErrorDecodeFloat16
  | ErrorDecodeExceedInt64
  | ErrorDecodeInfoReserved
  | ErrorDecodeIndefinite
  | ErrorDecodeSimpleType
  | ErrorUnknownType
  | ErrorExpectedJsonPointer
  | ErrorExpectedCborPointer
  | ErrorInvalidPointer
  | ErrorInvalidArrayOffset
  | ErrorNoKey
  | ErrorInvalidDocument
  | ErrorMalformedDocument
  | RuntimeError

text \<open>
  The dynamic type of an \<^verbatim>\<open>interface{}\<close> that \<^verbatim>\<open>encode\<close> switches on or that a decoder
  returns. \<^verbatim>\<open>Undefined\<close>, \<^verbatim>\<open>Indefinite\<close> and \<^verbatim>\<open>BreakStop\<close> are byte types of the package.
  The last nine constructors are the tagged kinds of the switch (\<^verbatim>\<open>time.Time\<close>, \<^verbatim>\<open>Epoch\<close>,
  \<^verbatim>\<open>EpochMicro\<close>, \<^verbatim>\<open>*big.Int\<close>, \<^verbatim>\<open>DecimalFraction\<close>, \<^verbatim>\<open>BigFloat\<close>, \<^verbatim>\<open>Cbor\<close>, \<^verbatim>\<open>*regexp.Regexp\<close>,
  \<^verbatim>\<open>CborPrefix\<close>), with the contents given above.
\<close>

datatype val =
    VNil
  | VBool bool
  | VInt8 "8 word"
  | VUint8 "8 word"
  | VInt16 "16 word"
  | VUint16 "16 word"
  | VInt32 "32 word"
  | VUint32 "32 word"
  | VInt "64 word"
  | VInt64 "64 word"
  | VUint "64 word"
  | VUint64 "64 word"
  | VFloat32 "32 word"
  | VFloat64 "64 word"
  | VBytes "byte list"
  | VText "byte list"
  | VArray "val list"
  | VMap "(val \<times> val) list"
  | VUndefined byte
  | VIndefinite byte
  | VBreakStop byte
  | VTime "byte list"
  | VEpoch "64 word"
  | VEpochMicro "64 word"
  | VBigInt int
  | VDecimalFraction "64 word" "64 word"
  | VBigFloat "64 word" "64 word"
  | VCbor "byte list"
  | VRegexp "byte list"
  | VCborPrefix "byte list"

text \<open>
  \<^verbatim>\<open>encode\<close> with \<^verbatim>\<open>encodeArrayItems\<close> and \<^verbatim>\<open>encodeMapItems\<close>, the two loops that call it
  back. The bodies of \<^verbatim>\<open>encodeArray\<close> and \<^verbatim>\<open>encodeMap\<close> are written out in the cases
  \<^verbatim>\<open>[]interface{}\<close> and \<^verbatim>\<open>[][2]interface{}\<close>, and given their names below.
\<close>

function (sequential) encode :: "val \<Rightarrow> error + byte list"
  and encodeArrayItems :: "val list \<Rightarrow> error + byte list"
  and encodeMapItems :: "(val \<times> val) list \<Rightarrow> error + byte list"
where
  "encode VNil = Inr encodeNull"
| "encode (VBool v) = (if v then Inr encodeTrue else Inr encodeFalse)"
| "encode (VInt8 v) = Inr (encodeInt8 v)"
| "encode (VUint8 v) = Inr (encodeUint8 v)"
| "encode (VInt16 v) = Inr (encodeInt16 v)"
| "encode (VUint16 v) = Inr (encodeUint16 v)"
| "encode (VInt32 v) = Inr (encodeInt32 v)"
| "encode (VUint32 v) = Inr (encodeUint32 v)"
| "encode (VInt v) = Inr (encodeInt64 v)"
| "encode (VInt64 v) = Inr (encodeInt64 v)"
| "encode (VUint v) = Inr (encodeUint64 v)"
| "encode (VUint64 v) = Inr (encodeUint64 v)"
| "encode (VFloat32 v) = Inr (encodeFloat32 v)"
| "encode (VFloat64 v) = Inr (encodeFloat64 v)"
| "encode (VBytes v) = Inr (encodeBytes v)"
| "encode (VText v) = Inr (encodeText v)"
| "encode (VArray v) =
     (case encodeArrayItems v of
        Inl e \<Rightarrow> Inl e
      | Inr bs \<Rightarrow> Inr (retag type4 (encodeUint64 (of_nat (length v))) @ bs))"
| "encode (VMap v) =
     (case encodeMapItems v of
        Inl e \<Rightarrow> Inl e
      | Inr bs \<Rightarrow> Inr (retag type5 (encodeUint64 (of_nat (length v))) @ bs))"
| "encode (VUndefined v) = Inr encodeUndefined"
| "encode (VTime v) = Inr (encodeDateTime v)"
| "encode (VEpoch v) = Inr (encodeEpoch v)"
| "encode (VEpochMicro v) = Inr (encodeEpochMicro v)"
| "encode (VBigInt v) = Inr (encodeBigNum v)"
| "encode (VDecimalFraction e m) = Inr (encodeDecimalFraction e m)"
| "encode (VBigFloat e m) = Inr (encodeBigFloat e m)"
| "encode (VCbor v) = Inr (encodeCbor v)"
| "encode (VRegexp v) = Inr (encodeRegexp v)"
| "encode (VCborPrefix v) = Inr (encodeCborPrefix v)"
| "encode (VIndefinite v) = Inl ErrorUnknownType"
| "encode (VBreakStop v) = Inl ErrorUnknownType"
| "encodeArrayItems [] = Inr []"
| "encodeArrayItems (item # items) =
     (case encode item of
        Inl e \<Rightarrow> Inl e
      | Inr a \<Rightarrow> (case encodeArrayItems items of
                  Inl e \<Rightarrow> Inl e
                | Inr bs \<Rightarrow> Inr (a @ bs)))"
| "encodeMapItems [] = Inr []"
| "encodeMapItems ((key, value) # items) =
     (case encode key of
        Inl e \<Rightarrow> Inl e
      | Inr k \<Rightarrow> (case encode value of
                  Inl e \<Rightarrow> Inl e
                | Inr v \<Rightarrow> (case encodeMapItems items of
                            Inl e \<Rightarrow> Inl e
                          | Inr bs \<Rightarrow> Inr (k @ v @ bs))))"
  by pat_completeness auto
termination
  by (relation "measure (case_sum size (case_sum (size_list size)
                  (size_list (size_prod size size))))") auto

definition encodeArray :: "val list \<Rightarrow> error + byte list" where
  "encodeArray items = encode (VArray items)"

definition encodeMap :: "(val \<times> val) list \<Rightarrow> error + byte list" where
  "encodeMap items = encode (VMap items)"

text \<open>
  The width the spec expects of the encoding of a non-negative integer \<open>n\<close>: 1 byte
  for \<open>n < 24\<close>, 2 below \<open>2\<^sup>8\<close>, 3 below \<open>2\<^sup>1\<^sup>6\<close>, 5 below \<open>2\<^sup>3\<^sup>2\<close>, 9 otherwise.
\<close>

definition width :: "nat \<Rightarrow> nat" where
  "width n =
     (if n < 24 then 1 else if n < 2 ^ 8 then 2 else if n < 2 ^ 16 then 3
      else if n < 2 ^ 32 then 5 else 9)"

section \<open>Decode functions\<close>

text \<open>
  A buffer is the list of its bytes, its capacity being its length. Reading
  \<^verbatim>\<open>buf[i]\<close> or slicing \<^verbatim>\<open>buf[n:]\<close>, \<^verbatim>\<open>buf[n:m]\<close> out of range is a panic of the runtime.
\<close>

definition index :: "byte list \<Rightarrow> nat \<Rightarrow> error + byte" where
  "index buf i = (if i < length buf then Inr (buf ! i) else Inl RuntimeError)"

definition slice_from :: "byte list \<Rightarrow> nat \<Rightarrow> error + byte list" where
  "slice_from buf n = (if n \<le> length buf then Inr (drop n buf) else Inl RuntimeError)"

definition slice :: "byte list \<Rightarrow> nat \<Rightarrow> nat \<Rightarrow> error + byte list" where
  "slice buf n m =
     (if n \<le> m \<and> m \<le> length buf then Inr (take (m - n) (drop n buf))
      else Inl RuntimeError)"

text \<open>\<^verbatim>\<open>binary.BigEndian.Uint16/32/64\<close> panic on a slice that is too short.\<close>

definition Uint16 :: "byte list \<Rightarrow> error + 16 word" where
  "Uint16 b =
     (if length b < 2 then Inl RuntimeError
      else Inr (ucast (b ! 1) OR push_bit 8 (ucast (b ! 0))))"

definition Uint32 :: "byte list \<Rightarrow> error + 32 word" where
  "Uint32 b =
     (if length b < 4 then Inl RuntimeError
      else Inr (ucast (b ! 3) OR push_bit 8 (ucast (b ! 2)) OR push_bit 16 (ucast (b ! 1))
                OR push_bit 24 (ucast (b ! 0))))"

definition Uint64 :: "byte list \<Rightarrow> error + 64 word" where
  "Uint64 b =
     (if length b < 8 then Inl RuntimeError
      else Inr (ucast (b ! 7) OR push_bit 8 (ucast (b ! 6)) OR push_bit 16 (ucast (b ! 5))
                OR push_bit 24 (ucast (b ! 4)) OR push_bit 32 (ucast (b ! 3))
                OR push_bit 40 (ucast (b ! 2)) OR push_bit 48 (ucast (b ! 1))
                OR push_bit 56 (ucast (b ! 0))))"

text \<open>Sequencing of steps that may panic.\<close>

definition bind_e :: "error + 'a \<Rightarrow> ('a \<Rightarrow> error + 'b) \<Rightarrow> error + 'b" where
  "bind_e r f = (case r of Inl e \<Rightarrow> Inl e | Inr x \<Rightarrow> f x)"

text \<open>
  The result of a decoder: \<open>None\<close> when the call does not return within the fuel given,
  \<open>Some (Inl e)\<close> when it panics with \<open>e\<close>, \<open>Some (Inr (item, n))\<close> when it returns the
  item and the number of bytes consumed.
\<close>

type_synonym dres = "(error + val \<times> nat) option"

definition bind_d :: "dres \<Rightarrow> (val \<Rightarrow> nat \<Rightarrow> dres) \<Rightarrow> dres" where
  "bind_d r f =
     (case r of None \<Rightarrow> None | Some (Inl e) \<Rightarrow> Some (Inl e) | Some (Inr (item, n)) \<Rightarrow> f item n)"

text \<open>
  A decoder of the table \<^verbatim>\<open>cborDecoders\<close>. The decoders of arrays and maps call
  \<^verbatim>\<open>decode\<close> back; a decoder takes that function as its first argument.
\<close>

type_synonym decoder = "(byte list \<Rightarrow> dres) \<Rightarrow> byte list \<Rightarrow> dres"

definition simple_decoder :: "(byte list \<Rightarrow> error + val \<times> nat) \<Rightarrow> decoder" where
  "simple_decoder f = (\<lambda>d buf. Some (f buf))"

definition decodeNull :: "byte list \<Rightarrow> error + val \<times> nat" where
  "decodeNull buf = Inr (VNil, 1)"

definition decodeFalse :: "byte list \<Rightarrow> error + val \<times> nat" where
  "decodeFalse buf = Inr (VBool False, 1)"

definition decodeTrue :: "byte list \<Rightarrow> error + val \<times> nat" where
  "decodeTrue buf = Inr (VBool True, 1)"

definition decodeSimpleTypeByte :: "byte list \<Rightarrow> error + val \<times> nat" where
  "decodeSimpleTypeByte buf = bind_e (index buf 1) (\<lambda>b. Inr (VUint8 b, 2))"

definition decodeFloat16 :: "byte list \<Rightarrow> error + val \<times> nat" where
  "decodeFloat16 buf = Inl ErrorDecodeFloat16"

definition decodeFloat32 :: "byte list \<Rightarrow> error + val \<times> nat" where
  "decodeFloat32 buf =
     bind_e (slice_from buf 1) (\<lambda>b. bind_e (Uint32 b) (\<lambda>item. Inr (VFloat32 item, 5)))"

definition decodeFloat64 :: "byte list \<Rightarrow> error + val \<times> nat" where
  "decodeFloat64 buf =
     bind_e (slice_from buf 1) (\<lambda>b. bind_e (Uint64 b) (\<lambda>item. Inr (VFloat64 item, 9)))"

definition decodeType0SmallInt :: "byte list \<Rightarrow> error + val \<times> nat" where
  "decodeType0SmallInt buf = bind_e (index buf 0) (\<lambda>b. Inr (VUint64 (ucast (info b)), 1))"

definition decodeType1SmallInt :: "byte list \<Rightarrow> error + val \<times> nat" where
  "decodeType1SmallInt buf =
     bind_e (index buf 0) (\<lambda>b. Inr (VInt64 (- ucast (info b + 1)), 1))"

definition decodeType0Info24 :: "byte list \<Rightarrow> error + val \<times> nat" where
  "decodeType0Info24 buf = bind_e (index buf 1) (\<lambda>b. Inr (VUint64 (ucast b), 2))"

definition decodeType1Info24 :: "byte list \<Rightarrow> error + val \<times> nat" where
  "decodeType1Info24 buf = bind_e (index buf 1) (\<lambda>b. Inr (VInt64 (- ucast (b + 1)), 2))"

definition decodeType0Info25 :: "byte list \<Rightarrow> error + val \<times> nat" where
  "decodeType0Info25 buf =
     bind_e (slice_from buf 1) (\<lambda>b. bind_e (Uint16 b) (\<lambda>x. Inr (VUint64 (ucast x), 3)))"

definition decodeType1Info25 :: "byte list \<Rightarrow> error + val \<times> nat" where
  "decodeType1Info25 buf =
     bind_e (slice_from buf 1) (\<lambda>b. bind_e (Uint16 b) (\<lambda>x. Inr (VInt64 (- ucast (x + 1)), 3)))"

definition decodeType0Info26 :: "byte list \<Rightarrow> error + val \<times> nat" where
  "decodeType0Info26 buf =
     bind_e (slice_from buf 1) (\<lambda>b. bind_e (Uint32 b) (\<lambda>x. Inr (VUint64 (ucast x), 5)))"

definition decodeType1Info26 :: "byte list \<Rightarrow> error + val \<times> nat" where
  "decodeType1Info26 buf =
     bind_e (slice_from buf 1) (\<lambda>b. bind_e (Uint32 b) (\<lambda>x. Inr (VInt64 (- ucast (x + 1)), 5)))"

definition decodeType0Info27 :: "byte list \<Rightarrow> error + val \<times> nat" where
  "decodeType0Info27 buf =
     bind_e (slice_from buf 1) (\<lambda>b. bind_e (Uint64 b) (\<lambda>x. Inr (VUint64 x, 9)))"

definition decodeType1Info27 :: "byte list \<Rightarrow> error + val \<times> nat" where
  "decodeType1Info27 buf =
     bind_e (slice_from buf 1) (\<lambda>b. bind_e (Uint64 b) (\<lambda>x.
       if x > 9223372036854775807 then Inl ErrorDecodeExceedInt64
       else Inr (VInt64 (- x - 1), 9)))"

text \<open>
  \<^verbatim>\<open>decodeLength\<close> returns Go \<^verbatim>\<open>int\<close>s (64 bits): the conversion of a \<^verbatim>\<open>uint64\<close> payload
  reads it as signed. Every info value that is not below 27 takes the last branch.
\<close>

definition decodeLength :: "byte list \<Rightarrow> error + int \<times> nat" where
  "decodeLength buf =
     bind_e (index buf 0) (\<lambda>b.
       let y = info b in
       if y < info24 then Inr (uint y, 1)
       else if y = info24 then bind_e (index buf 1) (\<lambda>c. Inr (uint c, 2))
       else if y = info25 then
         bind_e (slice_from buf 1) (\<lambda>s. bind_e (Uint16 s) (\<lambda>x. Inr (uint x, 3)))
       else if y = info26 then
         bind_e (slice_from buf 1) (\<lambda>s. bind_e (Uint32 s) (\<lambda>x. Inr (uint x, 5)))
       else bind_e (slice_from buf 1) (\<lambda>s. bind_e (Uint64 s) (\<lambda>x. Inr (sint x, 9))))"

text \<open>
  \<^verbatim>\<open>make([]byte, ln)\<close> panics on a negative \<^verbatim>\<open>ln\<close>; \<^verbatim>\<open>buf[n:n+ln]\<close> panics beyond the
  buffer.
\<close>

definition decodeType2 :: "byte list \<Rightarrow> error + val \<times> nat" where
  "decodeType2 buf =
     bind_e (decodeLength buf) (\<lambda>(ln, n).
       if ln < 0 then Inl RuntimeError
       else bind_e (slice buf n (n + nat ln)) (\<lambda>dst. Inr (VBytes dst, n + nat ln)))"

definition decodeType2Indefinite :: "byte list \<Rightarrow> error + val \<times> nat" where
  "decodeType2Indefinite buf = bind_e (index buf 0) (\<lambda>b. Inr (VIndefinite b, 1))"

definition decodeType3 :: "byte list \<Rightarrow> error + val \<times> nat" where
  "decodeType3 buf =
     bind_e (decodeLength buf) (\<lambda>(ln, n).
       if ln < 0 then Inl RuntimeError
       else bind_e (slice buf n (n + nat ln)) (\<lambda>dst. Inr (VText dst, n + nat ln)))"

definition decodeType3Indefinite :: "byte list \<Rightarrow> error + val \<times> nat" where
  "decodeType3Indefinite buf = bind_e (index buf 0) (\<lambda>b. Inr (VIndefinite b, 1))"

text \<open>
  The loop of \<^verbatim>\<open>decodeType4\<close>: \<open>k\<close> items are still to be decoded, \<open>n\<close> bytes are
  consumed and \<open>arr\<close> holds the items decoded so far.
\<close>

fun decodeType4_loop :: "(byte list \<Rightarrow> dres) \<Rightarrow> byte list \<Rightarrow> nat \<Rightarrow> nat \<Rightarrow> val list \<Rightarrow> dres" where
  "decodeType4_loop d buf 0 n arr = Some (Inr (VArray arr, n))"
| "decodeType4_loop d buf (Suc k) n arr =
     (case slice_from buf n of
        Inl e \<Rightarrow> Some (Inl e)
      | Inr s \<Rightarrow> bind_d (d s) (\<lambda>item n1. decodeType4_loop d buf k (n + n1) (arr @ [item])))"

definition decodeType4 :: decoder where
  "decodeType4 d buf =
     (case decodeLength buf of
        Inl e \<Rightarrow> Some (Inl e)
      | Inr (ln, n) \<Rightarrow>
          if ln < 0 then Some (Inl RuntimeError)
          else decodeType4_loop d buf (nat ln) n [])"

definition decodeType4Indefinite :: "byte list \<Rightarrow> error + val \<times> nat" where
  "decodeType4Indefinite buf = bind_e (index buf 0) (\<lambda>b. Inr (VIndefinite b, 1))"

fun decodeType5_loop ::
  "(byte list \<Rightarrow> dres) \<Rightarrow> byte list \<Rightarrow> nat \<Rightarrow> nat \<Rightarrow> (val \<times> val) list \<Rightarrow> dres" where
  "decodeType5_loop d buf 0 n pairs = Some (Inr (VMap pairs, n))"
| "decodeType5_loop d buf (Suc k) n pairs =
     (case slice_from buf n of
        Inl e \<Rightarrow> Some (Inl e)
      | Inr s \<Rightarrow> bind_d (d s) (\<lambda>key n1.
          case slice_from buf (n + n1) of
            Inl e \<Rightarrow> Some (Inl e)
          | Inr s2 \<Rightarrow> bind_d (d s2) (\<lambda>value n2.
              decodeType5_loop d buf k (n + n1 + n2) (pairs @ [(key, value)]))))"

definition decodeType5 :: decoder where
  "decodeType5 d buf =
     (case decodeLength buf of
        Inl e \<Rightarrow> Some (Inl e)
      | Inr (ln, n) \<Rightarrow>
          if ln < 0 then Some (Inl RuntimeError)
          else decodeType5_loop d buf (nat ln) n [])"

definition decodeType5Indefinite :: "byte list \<Rightarrow> error + val \<times> nat" where
  "decodeType5Indefinite buf = bind_e (index buf 0) (\<lambda>b. Inr (VIndefinite b, 1))"

definition decodeBreakCode :: "byte list \<Rightarrow> error + val \<times> nat" where
  "decodeBreakCode buf = bind_e (index buf 0) (\<lambda>b. Inr (VBreakStop b, 1))"

definition decodeUndefined :: "byte list \<Rightarrow> error + val \<times> nat" where
  "decodeUndefined buf = Inr (VUndefined simpleUndefined, 1)"

definition makePanic :: "error \<Rightarrow> decoder" where
  "makePanic msg = (\<lambda>d buf. Some (Inl msg))"

text \<open>
  Modelled from the spec: the package-level \<^verbatim>\<open>brkstp\<close> that \<^verbatim>\<open>decode\<close> compares with is
  declared outside the source files at hand. It is the break-stop header byte, as the
  local \<^verbatim>\<open>brkstp := hdr(type7, itemBreak)\<close> of the pointer functions.
\<close>

definition brkstp :: byte where
  "brkstp = hdr type7 itemBreak"

subsection \<open>The table of decoders\<close>

definition bytes_upto :: "nat \<Rightarrow> byte list" where
  "bytes_upto n = map of_nat [0..<n]"

text \<open>
  The assignments of \<^verbatim>\<open>init\<close>, in their order. \<^verbatim>\<open>decodeTag\<close> is defined outside the source
  files at hand and is a parameter of the table.
\<close>

definition cborDecoders_init :: "decoder \<Rightarrow> (byte \<times> decoder) list" where
  "cborDecoders_init decodeTag =
     map (\<lambda>i. (hdr type0 i, simple_decoder decodeType0SmallInt)) (bytes_upto 24) @
     [(hdr type0 info24, simple_decoder decodeType0Info24),
      (hdr type0 info25, simple_decoder decodeType0Info25),
      (hdr type0 info26, simple_decoder decodeType0Info26),
      (hdr type0 info27, simple_decoder decodeType0Info27),
      (hdr type0 28, makePanic ErrorDecodeInfoReserved),
      (hdr type0 29, makePanic ErrorDecodeInfoReserved),
      (hdr type0 30, makePanic ErrorDecodeInfoReserved),
      (hdr type0 indefiniteLength, makePanic ErrorDecodeIndefinite)] @
     map (\<lambda>i. (hdr type1 i, simple_decoder decodeType1SmallInt)) (bytes_upto 24) @
     [(hdr type1 info24, simple_decoder decodeType1Info24),
      (hdr type1 info25, simple_decoder decodeType1Info25),
      (hdr type1 info26, simple_decoder decodeType1Info26),
      (hdr type1 info27, simple_decoder decodeType1Info27),
      (hdr type1 28, makePanic ErrorDecodeInfoReserved),
      (hdr type1 29, makePanic ErrorDecodeInfoReserved),
      (hdr type1 30, makePanic ErrorDecodeInfoReserved),
      (hdr type1 indefiniteLength, makePanic ErrorDecodeIndefinite)] @
     map (\<lambda>i. (hdr type2 i, simple_decoder decodeType2)) (bytes_upto 28) @
     [(hdr type2 28, makePanic ErrorDecodeInfoReserved),
      (hdr type2 29, makePanic ErrorDecodeInfoReserved),
      (hdr type2 30, makePanic ErrorDecodeInfoReserved),
      (hdr type2 indefiniteLength, simple_decoder decodeType2Indefinite)] @
     map (\<lambda>i. (hdr type3 i, simple_decoder decodeType3)) (bytes_upto 28) @
     [(hdr type3 28, makePanic ErrorDecodeInfoReserved),
      (hdr type3 29, makePanic ErrorDecodeInfoReserved),
      (hdr type3 30, makePanic ErrorDecodeInfoReserved),
      (hdr type3 indefiniteLength, simple_decoder decodeType3Indefinite)] @
     map (\<lambda>i. (hdr type4 i, decodeType4)) (bytes_upto 28) @
     [(hdr type4 28, makePanic ErrorDecodeInfoReserved),
      (hdr type4 29, makePanic ErrorDecodeInfoReserved),
      (hdr type4 30, makePanic ErrorDecodeInfoReserved),
      (hdr type4 indefiniteLength, simple_decoder decodeType4Indefinite)] @
     map (\<lambda>i. (hdr type5 i, decodeType5)) (bytes_upto 28) @
     [(hdr type5 28, makePanic ErrorDecodeInfoReserved),
      (hdr type5 29, makePanic ErrorDecodeInfoReserved),
      (hdr type5 30, makePanic ErrorDecodeInfoReserved),
      (hdr type5 indefiniteLength, simple_decoder decodeType5Indefinite)] @
     map (\<lambda>i. (hdr type6 i, decodeTag)) (bytes_upto 24) @
     [(hdr type6 info24, decodeTag),
      (hdr type6 info25, decodeTag),
      (hdr type6 info26, decodeTag),
      (hdr type6 info27, decodeTag),
      (hdr type6 28, makePanic ErrorDecodeInfoReserved),
      (hdr type6 29, makePanic ErrorDecodeInfoReserved),
      (hdr type6 30, makePanic ErrorDecodeInfoReserved),
      (hdr type6 indefiniteLength, makePanic ErrorDecodeIndefinite)] @
     map (\<lambda>i. (hdr type7 i, simple_decoder (\<lambda>buf. Inr (VUint8 i, 1)))) (bytes_upto 20) @
     [(hdr type7 simpleTypeFalse, simple_decoder decodeFalse),
      (hdr type7 simpleTypeTrue, simple_decoder decodeTrue),
      (hdr type7 simpleTypeNil, simple_decoder decodeNull),
      (hdr type7 simpleUndefined, simple_decoder decodeUndefined),
      (hdr type7 simpleTypeByte, simple_decoder decodeSimpleTypeByte),
      (hdr type7 flt16, simple_decoder decodeFloat16),
      (hdr type7 flt32, simple_decoder decodeFloat32),
      (hdr type7 flt64, simple_decoder decodeFloat64),
      (hdr type7 28, makePanic ErrorDecodeSimpleType),
      (hdr type7 29, makePanic ErrorDecodeSimpleType),
      (hdr type7 30, makePanic ErrorDecodeSimpleType),
      (hdr type7 itemBreak, simple_decoder decodeBreakCode)]"

text \<open>The map \<^verbatim>\<open>cborDecoders\<close> after \<^verbatim>\<open>init\<close>: a later assignment to a key replaces an earlier one.\<close>

definition cborDecoders :: "decoder \<Rightarrow> byte \<Rightarrow> decoder option" where
  "cborDecoders decodeTag = map_of (rev (cborDecoders_init decodeTag))"

subsection \<open>decode\<close>

text \<open>
  The two loops of \<^verbatim>\<open>decode\<close> that run until the break-stop byte. The first argument
  bounds the number of iterations: a loop that has not met the break-stop within the
  bound has the result \<open>None\<close>.
\<close>

fun decode_array_loop :: "nat \<Rightarrow> (byte list \<Rightarrow> dres) \<Rightarrow> byte list \<Rightarrow> nat \<Rightarrow> val list \<Rightarrow> dres" where
  "decode_array_loop 0 d buf n arr = None"
| "decode_array_loop (Suc k) d buf n arr =
     (case index buf n of
        Inl e \<Rightarrow> Some (Inl e)
      | Inr c \<Rightarrow>
          if c \<noteq> brkstp then
            (case slice_from buf n of
               Inl e \<Rightarrow> Some (Inl e)
             | Inr s \<Rightarrow> bind_d (d s) (\<lambda>item n1.
                 decode_array_loop k d buf (n + n1) (arr @ [item])))
          else Some (Inr (VArray arr, n + 1)))"

fun decode_map_loop ::
  "nat \<Rightarrow> (byte list \<Rightarrow> dres) \<Rightarrow> byte list \<Rightarrow> nat \<Rightarrow> (val \<times> val) list \<Rightarrow> dres" where
  "decode_map_loop 0 d buf n pairs = None"
| "decode_map_loop (Suc k) d buf n pairs =
     (case index buf n of
        Inl e \<Rightarrow> Some (Inl e)
      | Inr c \<Rightarrow>
          if c \<noteq> brkstp then
            (case slice_from buf n of
               Inl e \<Rightarrow> Some (Inl e)
             | Inr s \<Rightarrow> bind_d (d s) (\<lambda>key n1.
                 case slice_from buf (n + n1) of
                   Inl e \<Rightarrow> Some (Inl e)
                 | Inr s2 \<Rightarrow> bind_d (d s2) (\<lambda>value n2.
                     decode_map_loop k d buf (n + n1 + n2) (pairs @ [(key, value)]))))
          else Some (Inr (VMap pairs, n + 1)))"

text \<open>
  \<^verbatim>\<open>decode\<close>, with fuel: \<open>decode decodeTag fuel buf\<close> is \<open>None\<close> when the nesting of the
  calls or the length of a break-terminated loop exceeds \<open>fuel\<close>.
\<close>

definition is_Indefinite :: "val \<Rightarrow> bool" where
  "is_Indefinite item = (case item of VIndefinite _ \<Rightarrow> True | _ \<Rightarrow> False)"

fun decode :: "decoder \<Rightarrow> nat \<Rightarrow> byte list \<Rightarrow> dres" where
  "decode decodeTag 0 buf = None"
| "decode decodeTag (Suc fuel) buf =
     (case index buf 0 of
        Inl e \<Rightarrow> Some (Inl e)
      | Inr b \<Rightarrow>
          (case cborDecoders decodeTag b of
             None \<Rightarrow> Some (Inl RuntimeError)
           | Some dec \<Rightarrow>
               bind_d (dec (decode decodeTag fuel) buf) (\<lambda>item n.
                 if is_Indefinite item then
                   (if major b = type4 then
                      decode_array_loop fuel (decode decodeTag fuel) buf n []
                    else if major b = type5 then
                      decode_map_loop fuel (decode decodeTag fuel) buf n []
                    else Some (Inr (item, n)))
                 else Some (Inr (item, n)))))"

subsection \<open>decodeTag\<close>

text \<open>
  Modelled from the spec: \<^verbatim>\<open>decodeTag\<close>, the decoder of every header of major type 6 with
  an info value up to 27, is defined outside the source files at hand. The spec has it
  read the tag number like a type-0 integer, then decode the tagged content, then wrap
  or reinterpret the content per the table of tags. The tag number is read here as
  \<^verbatim>\<open>decodeLength\<close> reads a length, from the info bits or from the payload after the
  header. \<open>tagged\<close> is the table: an integer content of tag 1 is an \<^verbatim>\<open>Epoch\<close> and a float
  content an \<^verbatim>\<open>EpochMicro\<close>, the magnitude under tag 3 is negated, the two integers of the
  array under tags 4 and 5 are taken as signed. The spec does not say what happens to
  a tag outside the table, or to a content that the table does not give to its tag:
  that is the first argument of \<^verbatim>\<open>decodeTag\<close>.
\<close>

text \<open>Modelled from the spec: an integer content, unsigned or signed, taken as a signed 64-bit integer.\<close>

definition as_int64 :: "val \<Rightarrow> 64 word option" where
  "as_int64 item = (case item of VUint64 u \<Rightarrow> Some u | VInt64 i \<Rightarrow> Some i | _ \<Rightarrow> None)"

text \<open>Modelled from the spec: the content of tags 4 and 5, an array of the two integers exponent and mantissa.\<close>

definition exp_mantissa :: "val \<Rightarrow> (64 word \<times> 64 word) option" where
  "exp_mantissa item =
     (case item of
        VArray items \<Rightarrow>
          (case items of
             [e, m] \<Rightarrow>
               (case as_int64 e of
                  None \<Rightarrow> None
                | Some e' \<Rightarrow> (case as_int64 m of None \<Rightarrow> None | Some m' \<Rightarrow> Some (e', m')))
           | _ \<Rightarrow> None)
      | _ \<Rightarrow> None)"

text \<open>Modelled from the spec: the table of tags, from the tag number and the decoded content to the tagged item.\<close>

definition tagged :: "int \<Rightarrow> val \<Rightarrow> val option" where
  "tagged tag item =
     (if tag = uint tagDateTime then
        (case item of VText s \<Rightarrow> Some (VTime s) | _ \<Rightarrow> None)
      else if tag = uint tagEpoch then
        (case item of
           VUint64 u \<Rightarrow> Some (VEpoch u)
         | VInt64 i \<Rightarrow> Some (VEpoch i)
         | VFloat64 f \<Rightarrow> Some (VEpochMicro f)
         | _ \<Rightarrow> None)
      else if tag = uint tagPosBignum then
        (case item of VBytes b \<Rightarrow> Some (VBigInt (int (be_value b))) | _ \<Rightarrow> None)
      else if tag = uint tagNegBignum then
        (case item of VBytes b \<Rightarrow> Some (VBigInt (- int (be_value b))) | _ \<Rightarrow> None)
      else if tag = uint tagDecimalFraction then
        map_option (\<lambda>(e, m). VDecimalFraction e m) (exp_mantissa item)
      else if tag = uint tagBigFloat then
        map_option (\<lambda>(e, m). VBigFloat e m) (exp_mantissa item)
      else if tag = uint tagCborEnc then
        (case item of VBytes b \<Rightarrow> Some (VCbor b) | _ \<Rightarrow> None)
      else if tag = uint tagRegexp then
        (case item of VText s \<Rightarrow> Some (VRegexp s) | _ \<Rightarrow> None)
      else if tag = uint tagCborPrefix then
        (case item of VBytes b \<Rightarrow> Some (VCborPrefix b) | _ \<Rightarrow> None)
      else None)"

text \<open>Modelled from the spec: \<^verbatim>\<open>decodeTag\<close>, as described above.\<close>

definition decodeTag :: "(int \<Rightarrow> val \<Rightarrow> nat \<Rightarrow> dres) \<Rightarrow> decoder" where
  "decodeTag other d buf =
     (case decodeLength buf of
        Inl e \<Rightarrow> Some (Inl e)
      | Inr (tag, n) \<Rightarrow>
          (case slice_from buf n of
             Inl e \<Rightarrow> Some (Inl e)
           | Inr s \<Rightarrow> bind_d (d s) (\<lambda>item m.
               case tagged tag item of
                 Some v \<Rightarrow> Some (Inr (v, n + m))
               | None \<Rightarrow> other tag item (n + m))))"

section \<open>JSON pointers in CBOR (the second file of cbor/codec.go)\<close>

definition maxPartSize :: nat where
  "maxPartSize = 1024"

text \<open>
  Modelled from the spec: the constant \<^verbatim>\<open>tagJsonString\<close> is declared outside the source
  files at hand. The spec gives 33 as the tag of a path segment.
\<close>

definition tagJsonString :: byte where
  "tagJsonString = 33"

text \<open>
  Modelled from the spec: \<^verbatim>\<open>IsIndefiniteText\<close> is defined outside the source files at
  hand. The spec has it hold of the header of an indefinite text string.
\<close>

definition IsIndefiniteText :: "byte \<Rightarrow> bool" where
  "IsIndefiniteText b = (b = hdr type3 indefiniteLength)"

text \<open>
  The results of the functions below: \<open>None\<close> when the call does not return,
  \<open>Some (Inl e)\<close> when it panics, \<open>Some (Inr x)\<close> when it returns \<open>x\<close>.
\<close>

definition bind_r :: "(error + 'a) option \<Rightarrow> ('a \<Rightarrow> (error + 'b) option) \<Rightarrow> (error + 'b) option" where
  "bind_r r f = (case r of None \<Rightarrow> None | Some (Inl e) \<Rightarrow> Some (Inl e) | Some (Inr x) \<Rightarrow> f x)"

subsection \<open>FromJsonPointer\<close>

text \<open>
  The loop of \<^verbatim>\<open>FromJsonPointer\<close>. The bytes \<^verbatim>\<open>part[0..off)\<close> are the list \<open>part\<close>, and
  \<^verbatim>\<open>off\<close> is its length: a store at \<^verbatim>\<open>part[off]\<close> panics when \<^verbatim>\<open>off\<close> has reached
  \<^verbatim>\<open>maxPartSize\<close>. The bytes \<^verbatim>\<open>out[0..n)\<close> are the list \<open>out\<close>. The characters are
  \<open>0x7e\<close> for \<^verbatim>\<open>~\<close>, \<open>0x2f\<close> for \<^verbatim>\<open>/\<close>, \<open>0x30\<close> for \<^verbatim>\<open>0\<close> and \<open>0x31\<close> for \<^verbatim>\<open>1\<close>.
  After a \<^verbatim>\<open>~\<close> that neither \<^verbatim>\<open>1\<close> nor \<^verbatim>\<open>0\<close> follows, the source changes no variable
  and the loop goes on from the same state.
\<close>

partial_function (option) FromJsonPointer_loop ::
  "byte list \<Rightarrow> nat \<Rightarrow> byte list \<Rightarrow> byte list \<Rightarrow> (error + byte list \<times> byte list) option" where
  "FromJsonPointer_loop path i part out =
     (if i < length path then
        (if path ! i = 0x7e then
           (if i + 1 < length path then
              (if path ! (i + 1) = 0x31 then
                 (if length part < maxPartSize
                  then FromJsonPointer_loop path (i + 2) (part @ [0x2f]) out
                  else Some (Inl RuntimeError))
               else if path ! (i + 1) = 0x30 then
                 (if length part < maxPartSize
                  then FromJsonPointer_loop path (i + 2) (part @ [0x7e]) out
                  else Some (Inl RuntimeError))
               else FromJsonPointer_loop path i part out)
            else Some (Inl RuntimeError))
         else if path ! i = 0x2f then
           (if length part > 0
            then FromJsonPointer_loop path (i + 1) []
                   (out @ encodeTag (ucast tagJsonString) @ encodeText part)
            else FromJsonPointer_loop path (i + 1) part out)
         else
           (if length part < maxPartSize
            then FromJsonPointer_loop path (i + 1) (part @ [path ! i]) out
            else Some (Inl RuntimeError)))
      else Some (Inr (part, out)))"

declare FromJsonPointer_loop.simps [code]

definition FromJsonPointer :: "byte list \<Rightarrow> (error + byte list) option" where
  "FromJsonPointer path =
     (if length path > 0 \<and> path ! 0 \<noteq> 0x2f then Some (Inl ErrorExpectedJsonPointer)
      else bind_r (FromJsonPointer_loop path 0 [] encodeTextStart) (\<lambda>(part, out).
        let out' = (if length part > 0 \<or> (length path > 0 \<and> path ! (length path - 1) = 0x2f)
                    then out @ encodeTag (ucast tagJsonString) @ encodeText part
                    else out)
        in Some (Inr (out' @ encodeBreakStop))))"

subsection \<open>ToJsonPointer\<close>

text \<open>The inner loop: the bytes of a segment, with \<^verbatim>\<open>/\<close> and \<^verbatim>\<open>~\<close> escaped.\<close>

function ToJsonPointer_segment ::
  "byte list \<Rightarrow> nat \<Rightarrow> int \<Rightarrow> byte list \<Rightarrow> error + nat \<times> byte list" where
  "ToJsonPointer_segment bin i ln out =
     (if int i < ln then
        (case index bin i of
           Inl e \<Rightarrow> Inl e
         | Inr c \<Rightarrow>
             ToJsonPointer_segment bin (i + 1) ln
               (out @ (if c = 0x2f then [0x7e, 0x31]
                       else if c = 0x7e then [0x7e, 0x30]
                       else [c])))
      else Inr (i, out))"
  by pat_completeness auto
termination
  by (relation "measure (\<lambda>(bin, i, ln, out). nat (ln - int i))") auto

declare ToJsonPointer_segment.simps [simp del]

text \<open>
  The outer loop, which has no exit but the break-stop byte: where \<^verbatim>\<open>bin[i]\<close> starts
  neither a segment nor is the break-stop, it goes on from the same state. The bound
  \<^verbatim>\<open>ln+i+j\<close> of the inner loop is an integer without the 64 bits of a Go \<^verbatim>\<open>int\<close>: it is the
  bound of the code as long as it is below \<open>2\<^sup>6\<^sup>3\<close>, that is for every declared length that
  is not near \<open>2\<^sup>6\<^sup>3\<close>.
\<close>

partial_function (option) ToJsonPointer_loop ::
  "byte list \<Rightarrow> nat \<Rightarrow> byte list \<Rightarrow> (error + byte list) option" where
  "ToJsonPointer_loop bin i out =
     (case index bin i of
        Inl e \<Rightarrow> Some (Inl e)
      | Inr b \<Rightarrow>
          (case (if b = hdr type6 info24
                 then bind_e (index bin (i + 1)) (\<lambda>t. Inr (t = tagJsonString))
                 else Inr False) of
             Inl e \<Rightarrow> Some (Inl e)
           | Inr is_segment \<Rightarrow>
               if is_segment then
                 (case bind_e (slice_from bin (i + 2)) decodeLength of
                    Inl e \<Rightarrow> Some (Inl e)
                  | Inr (ln, j) \<Rightarrow>
                      (case ToJsonPointer_segment bin (i + 2 + j) (ln + int (i + 2) + int j)
                              (out @ [0x2f]) of
                         Inl e \<Rightarrow> Some (Inl e)
                       | Inr (i', out') \<Rightarrow>
                           (case index bin i' of
                              Inl e \<Rightarrow> Some (Inl e)
                            | Inr c \<Rightarrow>
                                if c = hdr type7 itemBreak then Some (Inr out')
                                else ToJsonPointer_loop bin i' out')))
               else if b = hdr type7 itemBreak then Some (Inr out)
               else ToJsonPointer_loop bin i out))"

declare ToJsonPointer_loop.simps [code]

definition ToJsonPointer :: "byte list \<Rightarrow> (error + byte list) option" where
  "ToJsonPointer bin =
     (case index bin 0 of
        Inl e \<Rightarrow> Some (Inl e)
      | Inr b \<Rightarrow>
          if \<not> IsIndefiniteText b then Some (Inl ErrorExpectedCborPointer)
          else ToJsonPointer_loop bin 1 [])"

section \<open>The walker over CBOR bytes\<close>

text \<open>
  Offsets and lengths are Go \<^verbatim>\<open>int\<close>s and may be negative; they are integers here.
  Indexing and slicing with them panics out of range. The integers have no bound: a sum
  of offsets and lengths is the sum the code computes as long as it is below \<open>2\<^sup>6\<^sup>3\<close>, where
  the \<^verbatim>\<open>int\<close> of the code wraps around and the integer here does not. A sum gets there only
  on a header that declares a length near \<open>2\<^sup>6\<^sup>3\<close>.
\<close>

definition index_i :: "byte list \<Rightarrow> int \<Rightarrow> error + byte" where
  "index_i buf i = (if 0 \<le> i \<and> i < int (length buf) then Inr (buf ! nat i) else Inl RuntimeError)"

definition slice_from_i :: "byte list \<Rightarrow> int \<Rightarrow> error + byte list" where
  "slice_from_i buf n =
     (if 0 \<le> n \<and> n \<le> int (length buf) then Inr (drop (nat n) buf) else Inl RuntimeError)"

definition slice_to_i :: "byte list \<Rightarrow> int \<Rightarrow> error + byte list" where
  "slice_to_i buf m =
     (if 0 \<le> m \<and> m \<le> int (length buf) then Inr (take (nat m) buf) else Inl RuntimeError)"

definition slice_i :: "byte list \<Rightarrow> int \<Rightarrow> int \<Rightarrow> error + byte list" where
  "slice_i buf n m =
     (if 0 \<le> n \<and> n \<le> m \<and> m \<le> int (length buf)
      then Inr (take (nat (m - n)) (drop (nat n) buf))
      else Inl RuntimeError)"

definition lift_e :: "error + 'a \<Rightarrow> (error + 'a) option" where
  "lift_e r = Some r"

text \<open>
  \<^verbatim>\<open>itemsEnd\<close> and \<^verbatim>\<open>arrayIndex\<close> call each other; each takes fuel, which a call or a
  turn of a loop uses up, and is \<open>None\<close> when the fuel does not suffice.
  \<open>arrayIndex_loop\<close> is the loop of \<^verbatim>\<open>arrayIndex\<close> with its variables \<^verbatim>\<open>count\<close> and
  \<^verbatim>\<open>n\<close>; \<open>itemsEnd_map_loop\<close> is the loop of the map case of \<^verbatim>\<open>itemsEnd\<close> with its
  variable \<^verbatim>\<open>n\<close>.
\<close>

fun itemsEnd :: "nat \<Rightarrow> byte list \<Rightarrow> (error + int) option"
  and itemsEnd_map_loop :: "nat \<Rightarrow> byte list \<Rightarrow> int \<Rightarrow> (error + int) option"
  and arrayIndex :: "nat \<Rightarrow> byte list \<Rightarrow> int \<Rightarrow> (error + int) option"
  and arrayIndex_loop :: "nat \<Rightarrow> byte list \<Rightarrow> int \<Rightarrow> int \<Rightarrow> int \<Rightarrow> (error + int) option"
where
  "itemsEnd 0 buf = None"
| "itemsEnd (Suc fuel) buf =
     bind_r (lift_e (index buf 0)) (\<lambda>b.
       let mjr = major b; ifo = info b in
       if mjr = type0 \<or> mjr = type1 then
         (if ifo < info24 then Some (Inr 1)
          else Some (Inr (2 ^ unat (ifo - info24) + 1)))
       else if mjr = type3 then
         bind_r (lift_e (decodeLength buf)) (\<lambda>(ln, j). Some (Inr (int j + ln)))
       else if mjr = type4 \<and> info b = indefiniteLength then
         bind_r (lift_e (slice_from_i buf 1)) (\<lambda>s.
         bind_r (arrayIndex fuel s (- 1)) (\<lambda>k.
         let n = 1 + k in
         bind_r (lift_e (slice_from_i buf n)) (\<lambda>s'.
         bind_r (itemsEnd fuel s') (\<lambda>e. Some (Inr (n + e + 1))))))
       else if mjr = type5 \<and> info b = indefiniteLength then
         bind_r (itemsEnd_map_loop fuel buf 1) (\<lambda>r. Some (Inr r))
       else if mjr = type7 then
         (if ifo = simpleTypeNil \<or> ifo = simpleTypeFalse \<or> ifo = simpleTypeTrue then Some (Inr 1)
          else if ifo = flt32 then Some (Inr (1 + 4))
          else if ifo = flt64 then Some (Inr (1 + 8))
          else Some (Inl ErrorInvalidDocument))
       else
         bind_r (lift_e (if mjr = type6
                         then bind_e (index buf 1) (\<lambda>t.
                                if t = tagJsonString
                                then bind_e (index buf 2) (\<lambda>c. Inr (major c = type3))
                                else Inr False)
                         else Inr False)) (\<lambda>is_segment.
           if is_segment then
             bind_r (lift_e (bind_e (slice_from_i buf 2) decodeLength)) (\<lambda>(ln, j).
               Some (Inr (2 + int j + ln)))
           else Some (Inl ErrorInvalidDocument)))"
| "itemsEnd_map_loop 0 buf n = None"
| "itemsEnd_map_loop (Suc fuel) buf n =
     (if n < int (length buf) then
        bind_r (lift_e (index_i buf n)) (\<lambda>c.
          if c = hdr type7 itemBreak then Some (Inr (n + 1))
          else
            bind_r (lift_e (slice_from_i buf n)) (\<lambda>s.
            bind_r (itemsEnd fuel s) (\<lambda>k.
            bind_r (lift_e (slice_from_i buf (n + k))) (\<lambda>s'.
            bind_r (itemsEnd fuel s') (\<lambda>v.
            itemsEnd_map_loop fuel buf (n + k + v))))))
      else Some (Inl ErrorInvalidDocument))"
| "arrayIndex 0 arr idx = None"
| "arrayIndex (Suc fuel) arr idx = arrayIndex_loop fuel arr idx 0 0"
| "arrayIndex_loop 0 arr idx count n = None"
| "arrayIndex_loop (Suc fuel) arr idx count n =
     (if idx > 0 \<and> count < idx then
        bind_r (lift_e (slice_from_i arr n)) (\<lambda>s.
        bind_r (itemsEnd fuel s) (\<lambda>m.
        bind_r (lift_e (if idx = - 1
                        then bind_e (index_i arr m) (\<lambda>c. Inr (c = hdr type7 itemBreak))
                        else Inr False)) (\<lambda>at_end.
          if at_end then Some (Inr n)
          else arrayIndex_loop fuel arr idx (count + 1) (n + m))))
      else Some (Inr n))"

text \<open>
  \<^verbatim>\<open>mapIndex\<close>: \<^verbatim>\<open>bytes.Compare(part, buf[n:m]) == 0\<close> holds when the two slices are
  equal.
\<close>

fun mapIndex_loop :: "nat \<Rightarrow> byte list \<Rightarrow> byte list \<Rightarrow> int \<Rightarrow> (error + int) option" where
  "mapIndex_loop 0 buf part n = None"
| "mapIndex_loop (Suc fuel) buf part n =
     (if n < int (length buf) then
        bind_r (lift_e (index_i buf n)) (\<lambda>c.
          if c = hdr type7 itemBreak then Some (Inl ErrorNoKey)
          else
            bind_r (lift_e (slice_from_i buf n)) (\<lambda>s.
            bind_r (itemsEnd fuel s) (\<lambda>m.
            bind_r (lift_e (slice_i buf n m)) (\<lambda>key.
              if part = key then Some (Inr n)
              else
                bind_r (lift_e (slice_from_i buf (n + m))) (\<lambda>s'.
                bind_r (itemsEnd fuel s') (\<lambda>p.
                mapIndex_loop fuel buf part (n + m + p)))))))
      else Some (Inl ErrorMalformedDocument))"

definition mapIndex :: "nat \<Rightarrow> byte list \<Rightarrow> byte list \<Rightarrow> (error + int) option" where
  "mapIndex fuel buf part = mapIndex_loop fuel buf part 0"

text \<open>
  \<^verbatim>\<open>strconv.Atoi\<close> of the Go library: an optional sign, then one or more decimal
  digits, the value within 64 bits; \<open>None\<close> is its error.
\<close>

definition is_digit :: "byte \<Rightarrow> bool" where
  "is_digit c = (0x30 \<le> c \<and> c \<le> 0x39)"

definition digits_value :: "byte list \<Rightarrow> int" where
  "digits_value ds = foldl (\<lambda>n c. n * 10 + uint (c - 0x30)) 0 ds"

definition Atoi :: "byte list \<Rightarrow> int option" where
  "Atoi s =
     (case s of
        [] \<Rightarrow> None
      | c # cs \<Rightarrow>
          let neg = (c = 0x2d);
              ds = (if c = 0x2d \<or> c = 0x2b then cs else s);
              v = (if neg then - digits_value ds else digits_value ds)
          in if ds = [] \<or> \<not> list_all is_digit ds then None
             else if v < - (2 ^ 63) \<or> 2 ^ 63 - 1 < v then None
             else Some v)"

definition partial :: "nat \<Rightarrow> byte list \<Rightarrow> byte list \<Rightarrow> (error + int \<times> int) option" where
  "partial fuel part doc =
     bind_r (lift_e (index doc 0)) (\<lambda>d0.
       if d0 = hdr type4 indefiniteLength then
         bind_r (lift_e (index part 0)) (\<lambda>p0.
         bind_r (lift_e (if p0 = 0x2d then Inr (- 1)
                         else (case Atoi part of
                                 None \<Rightarrow> Inl ErrorInvalidArrayOffset
                               | Some i \<Rightarrow> Inr i))) (\<lambda>idx.
         bind_r (lift_e (slice_from_i doc 1)) (\<lambda>arr.
         bind_r (arrayIndex fuel arr idx) (\<lambda>n.
         bind_r (lift_e (slice_from_i doc n)) (\<lambda>s.
         bind_r (itemsEnd fuel s) (\<lambda>m.
         Some (Inr (n, n + m))))))))
       else if d0 = hdr type5 indefiniteLength then
         bind_r (lift_e (slice_from_i doc 1)) (\<lambda>buf.
         bind_r (mapIndex fuel buf part) (\<lambda>n.
         bind_r (lift_e (slice_from_i doc n)) (\<lambda>s.
         bind_r (itemsEnd fuel s) (\<lambda>m.
         bind_r (lift_e (slice_from_i doc (n + m))) (\<lambda>s'.
         bind_r (itemsEnd fuel s') (\<lambda>p.
         Some (Inr (n + m, n + m + p))))))))
       else Some (Inl ErrorInvalidPointer))"

text \<open>
  The loop of \<^verbatim>\<open>lookup\<close> with its variables \<^verbatim>\<open>i\<close>, \<^verbatim>\<open>doc\<close>, \<^verbatim>\<open>n\<close> and \<^verbatim>\<open>m\<close>. Each turn
  first narrows \<^verbatim>\<open>doc\<close> to \<^verbatim>\<open>doc[n:m]\<close>.
\<close>

fun lookup_loop ::
  "nat \<Rightarrow> byte list \<Rightarrow> nat \<Rightarrow> byte list \<Rightarrow> int \<Rightarrow> int \<Rightarrow> (error + int \<times> int) option" where
  "lookup_loop 0 pointer i doc n m = None"
| "lookup_loop (Suc fuel) pointer i doc n m =
     bind_r (lift_e (if i < length pointer
                     then bind_e (index pointer i) (\<lambda>c. Inr (c \<noteq> hdr type7 itemBreak))
                     else Inr False)) (\<lambda>go_on.
       if go_on then
         bind_r (lift_e (slice_i doc n m)) (\<lambda>doc'.
         bind_r (lift_e (bind_e (index pointer i) (\<lambda>c.
                   if c = hdr type6 info24
                   then bind_e (index pointer (i + 1)) (\<lambda>t. Inr (t = tagJsonString))
                   else Inr False))) (\<lambda>is_segment.
           if is_segment then
             bind_r (lift_e (bind_e (slice_from pointer (i + 2)) decodeLength)) (\<lambda>(ln, j).
             bind_r (lift_e (slice_i pointer (int (i + 2 + j)) (int (i + 2 + j) + ln))) (\<lambda>part.
             bind_r (partial fuel part doc') (\<lambda>(n', m').
             lookup_loop fuel pointer (i + 2 + j + nat ln) doc' n' m')))
           else Some (Inl ErrorInvalidPointer)))
       else Some (Inr (n, m)))"

definition lookup :: "nat \<Rightarrow> byte list \<Rightarrow> byte list \<Rightarrow> (error + int \<times> int) option" where
  "lookup fuel pointer doc =
     bind_r (lift_e (index pointer 0)) (\<lambda>p0.
       if \<not> IsIndefiniteText p0 then Some (Inl ErrorExpectedCborPointer)
       else
         bind_r (lift_e (index pointer 1)) (\<lambda>p1.
           if p1 = hdr type7 itemBreak then Some (Inr (0, int (length doc)))
           else lookup_loop fuel pointer 1 doc 0 (int (length doc))))"

subsection \<open>get, set and del\<close>

text \<open>
  \<^verbatim>\<open>copy(dst, src)\<close> of Go: the first \<open>min (length dst) (length src)\<close> elements of \<open>src\<close>
  replace those of \<open>dst\<close>, from index 0.
\<close>

definition copy :: "byte list \<Rightarrow> byte list \<Rightarrow> byte list" where
  "copy dst src = take (length dst) src @ drop (length src) dst"

definition get :: "nat \<Rightarrow> byte list \<Rightarrow> byte list \<Rightarrow> (error + byte list) option" where
  "get fuel doc pointer =
     bind_r (lookup fuel pointer doc) (\<lambda>(n, m). lift_e (slice_i doc n m))"

text \<open>\<^verbatim>\<open>set\<close> and \<^verbatim>\<open>del\<close> return nothing; the model returns the buffer \<^verbatim>\<open>out\<close> as they leave it.\<close>

definition set_doc ::
  "nat \<Rightarrow> byte list \<Rightarrow> byte list \<Rightarrow> byte list \<Rightarrow> byte list \<Rightarrow> (error + byte list) option" where
  "set_doc fuel doc pointer item out =
     bind_r (lookup fuel pointer doc) (\<lambda>(n, m).
     bind_r (lift_e (slice_to_i doc n)) (\<lambda>pre.
       let out1 = copy out pre;
           out2 = copy out1 item
       in bind_r (lift_e (slice_from_i doc m)) (\<lambda>post.
            Some (Inr (copy out2 post)))))"

definition del :: "nat \<Rightarrow> byte list \<Rightarrow> byte list \<Rightarrow> byte list \<Rightarrow> (error + byte list) option" where
  "del fuel doc pointer out =
     bind_r (lookup fuel pointer doc) (\<lambda>(n, m).
     bind_r (lift_e (slice_to_i doc n)) (\<lambda>pre.
       let out1 = copy out pre
       in bind_r (lift_e (slice_from_i doc m)) (\<lambda>post.
            Some (Inr (copy out1 post)))))"

section \<open>The text form of a JSON pointer (RFC 6901)\<close>

text \<open>
  A text pointer of valid syntax is a sequence of reference tokens, each after a \<^verbatim>\<open>/\<close>;
  in a token \<^verbatim>\<open>~\<close> is written \<^verbatim>\<open>~0\<close> and \<^verbatim>\<open>/\<close> is written \<^verbatim>\<open>~1\<close>. \<open>text_pointer segs\<close> is
  the text pointer whose tokens stand for the segments \<open>segs\<close>; the empty list gives the
  empty pointer, and an empty segment gives an empty token.
\<close>

definition escape_char :: "byte \<Rightarrow> byte list" where
  "escape_char c = (if c = 0x7e then [0x7e, 0x30] else if c = 0x2f then [0x7e, 0x31] else [c])"

definition escape :: "byte list \<Rightarrow> byte list" where
  "escape s = concat (map escape_char s)"

definition text_pointer :: "byte list list \<Rightarrow> byte list" where
  "text_pointer segs = concat (map (\<lambda>s. 0x2f # escape s) segs)"

text \<open>
  The CBOR form of a pointer as the spec has it: the header of an indefinite text
  string, then each segment as tag 33 before a definite text string, then the
  break-stop.
\<close>

definition cbor_segment :: "byte list \<Rightarrow> byte list" where
  "cbor_segment s = encodeTag (ucast tagJsonString) @ encodeText s"

definition cbor_pointer :: "byte list list \<Rightarrow> byte list" where
  "cbor_pointer segs = encodeTextStart @ concat (map cbor_segment segs) @ encodeBreakStop"

section \<open>The shape of a data item: a header byte with its payload\<close>

text \<open>
  \<open>payload_item t k p\<close> is the header of major type \<open>t\<close> that carries \<open>p\<close> in the width of
  class \<open>k\<close>: in the info bits for \<open>k = 0\<close>, in 1, 2, 4 or 8 bytes after info 24, 25, 26
  or 27 for \<open>k\<close> from 1 to 4. \<open>uint_item t n\<close> carries the number \<open>n\<close> in the class of the
  smallest width that fits it.
\<close>

definition payload_item :: "byte \<Rightarrow> nat \<Rightarrow> 64 word \<Rightarrow> byte list" where
  "payload_item t k p =
     (if k = 0 then [hdr t (ucast p)]
      else if k = 1 then [hdr t info24, ucast p]
      else if k = 2 then hdr t info25 # PutUint16 (ucast p)
      else if k = 3 then hdr t info26 # PutUint32 (ucast p)
      else hdr t info27 # PutUint64 p)"

definition width_class :: "nat \<Rightarrow> nat" where
  "width_class n =
     (if n < 24 then 0 else if n < 2 ^ 8 then 1 else if n < 2 ^ 16 then 2
      else if n < 2 ^ 32 then 3 else 4)"

definition uint_item :: "byte \<Rightarrow> nat \<Rightarrow> byte list" where
  "uint_item t n = payload_item t (width_class n) (of_nat n)"

text \<open>The number of bytes of an item of class \<open>k\<close>, and the payloads a class can carry.\<close>

definition payload_len :: "nat \<Rightarrow> nat" where
  "payload_len k = (if k = 0 then 1 else if k = 1 then 2 else if k = 2 then 3
                    else if k = 3 then 5 else 9)"

definition payload_bound :: "nat \<Rightarrow> nat" where
  "payload_bound k = (if k = 0 then 24 else if k = 1 then 2 ^ 8 else if k = 2 then 2 ^ 16
                      else if k = 3 then 2 ^ 32 else 2 ^ 64)"


definition neg_bound :: "nat \<Rightarrow> nat" where
  "neg_bound k = (if k = 0 then 24 else if k = 1 then 2 ^ 8 - 1 else if k = 2 then 2 ^ 16 - 1
                  else if k = 3 then 2 ^ 32 - 1 else 2 ^ 63)"

section \<open>What a round trip preserves\<close>




text \<open>
  The value that comes back: an integer as \<^verbatim>\<open>uint64\<close> when it is not negative and as
  \<^verbatim>\<open>int64\<close> when it is, the \<^verbatim>\<open>Undefined\<close> value as \<^verbatim>\<open>Undefined(simpleUndefined)\<close>, every
  other scalar and every tagged item as it is, arrays and maps item by item.
\<close>

definition int_form :: "int \<Rightarrow> val" where
  "int_form k = (if 0 \<le> k then VUint64 (word_of_int k) else VInt64 (word_of_int k))"

fun decoded_form :: "val \<Rightarrow> val" where
  "decoded_form VNil = VNil"
| "decoded_form (VBool v) = VBool v"
| "decoded_form (VInt8 v) = int_form (sint v)"
| "decoded_form (VUint8 v) = int_form (uint v)"
| "decoded_form (VInt16 v) = int_form (sint v)"
| "decoded_form (VUint16 v) = int_form (uint v)"
| "decoded_form (VInt32 v) = int_form (sint v)"
| "decoded_form (VUint32 v) = int_form (uint v)"
| "decoded_form (VInt v) = int_form (sint v)"
| "decoded_form (VInt64 v) = int_form (sint v)"
| "decoded_form (VUint v) = int_form (uint v)"
| "decoded_form (VUint64 v) = int_form (uint v)"
| "decoded_form (VFloat32 v) = VFloat32 v"
| "decoded_form (VFloat64 v) = VFloat64 v"
| "decoded_form (VBytes v) = VBytes v"
| "decoded_form (VText v) = VText v"
| "decoded_form (VArray v) = VArray (map decoded_form v)"
| "decoded_form (VMap v) = VMap (map (\<lambda>(key, value). (decoded_form key, decoded_form value)) v)"
| "decoded_form (VUndefined v) = VUndefined simpleUndefined"
| "decoded_form (VIndefinite v) = VIndefinite v"
| "decoded_form (VBreakStop v) = VBreakStop v"
| "decoded_form (VTime v) = VTime v"
| "decoded_form (VEpoch v) = VEpoch v"
| "decoded_form (VEpochMicro v) = VEpochMicro v"
| "decoded_form (VBigInt v) = VBigInt v"
| "decoded_form (VDecimalFraction e m) = VDecimalFraction e m"
| "decoded_form (VBigFloat e m) = VBigFloat e m"
| "decoded_form (VCbor v) = VCbor v"
| "decoded_form (VRegexp v) = VRegexp v"
| "decoded_form (VCborPrefix v) = VCborPrefix v"


text \<open>
  The values \<^verbatim>\<open>encode\<close> takes: the values of a Go program with no \<^verbatim>\<open>Indefinite\<close> or
  \<^verbatim>\<open>BreakStop\<close> value in them.
\<close>

fun supported :: "val \<Rightarrow> bool" where
  "supported (VBytes v) = (length v < 2 ^ 63)"
| "supported (VText v) = (length v < 2 ^ 63)"
| "supported (VArray v) = (length v < 2 ^ 63 \<and> list_all supported v)"
| "supported (VMap v) =
     (length v < 2 ^ 63 \<and> list_all (\<lambda>(key, value). supported key \<and> supported value) v)"
| "supported (VIndefinite v) = False"
| "supported (VBreakStop v) = False"
| "supported (VTime v) = (length v < 2 ^ 63)"
| "supported (VBigInt v) = (length (be_bytes (nat (abs v))) < 2 ^ 63)"
| "supported (VCbor v) = (length v < 2 ^ 63)"
| "supported (VRegexp v) = (length v < 2 ^ 63)"
| "supported (VCborPrefix v) = (length v < 2 ^ 63)"
| "supported v = True"

text \<open>
  The nesting of a value, which bounds the nesting of the calls of \<^verbatim>\<open>decode\<close>: an array or
  a map is one level above its items, a tagged item one level above its content.
\<close>

fun depth :: "val \<Rightarrow> nat" where
  "depth (VArray v) = Suc (foldr max (map depth v) 0)"
| "depth (VMap v) = Suc (foldr max (map (\<lambda>(key, value). max (depth key) (depth value)) v) 0)"
| "depth (VTime v) = 2"
| "depth (VEpoch v) = 2"
| "depth (VEpochMicro v) = 2"
| "depth (VBigInt v) = 2"
| "depth (VDecimalFraction e m) = 3"
| "depth (VBigFloat e m) = 3"
| "depth (VCbor v) = 2"
| "depth (VRegexp v) = 2"
| "depth (VCborPrefix v) = 2"
| "depth v = Suc 0"

text \<open>
  A value makes the round trip when \<^verbatim>\<open>encode\<close> returns bytes for it and \<^verbatim>\<open>decode\<close>, on these
  bytes before any others and with fuel for the nesting of the value, returns the
  decoded form and the number of the bytes. The items of an array and the pairs of a
  map make the round trip when the loops of \<^verbatim>\<open>decodeType4\<close> and \<^verbatim>\<open>decodeType5\<close> return
  them all from the bytes of \<^verbatim>\<open>encodeArrayItems\<close> and \<^verbatim>\<open>encodeMapItems\<close>.
\<close>

definition roundtrips :: "decoder \<Rightarrow> val \<Rightarrow> bool" where
  "roundtrips dt v =
     (\<exists>bs. encode v = Inr bs \<and>
        (\<forall>fuel rest. depth v \<le> fuel \<longrightarrow>
           decode dt fuel (bs @ rest) = Some (Inr (decoded_form v, length bs))))"

definition items_roundtrip :: "decoder \<Rightarrow> val list \<Rightarrow> bool" where
  "items_roundtrip dt items =
     (\<exists>bs. encodeArrayItems items = Inr bs \<and>
        (\<forall>fuel pre rest acc. (\<forall>x \<in> set items. depth x \<le> fuel) \<longrightarrow>
           decodeType4_loop (decode dt fuel) (pre @ bs @ rest) (length items) (length pre) acc
           = Some (Inr (VArray (acc @ map decoded_form items), length pre + length bs))))"

definition pairs_roundtrip :: "decoder \<Rightarrow> (val \<times> val) list \<Rightarrow> bool" where
  "pairs_roundtrip dt pairs =
     (\<exists>bs. encodeMapItems pairs = Inr bs \<and>
        (\<forall>fuel pre rest acc.
           (\<forall>p \<in> set pairs. depth (fst p) \<le> fuel \<and> depth (snd p) \<le> fuel) \<longrightarrow>
           decodeType5_loop (decode dt fuel) (pre @ bs @ rest) (length pairs) (length pre) acc
           = Some (Inr (VMap (acc @ map (\<lambda>(key, value). (decoded_form key, decoded_form value))
                                       pairs),
                        length pre + length bs))))"

section \<open>Facts about words\<close>

lemmas cbor_consts =
  type0_def type1_def type2_def type3_def type4_def type5_def type6_def type7_def
  info24_def info25_def info26_def info27_def indefiniteLength_def
  simpleTypeFalse_def simpleTypeTrue_def simpleTypeNil_def simpleUndefined_def
  simpleTypeByte_def flt16_def flt32_def flt64_def itemBreak_def
  tagJsonString_def MaxSmallInt_def

lemma sint_of_small:
  fixes w :: "'a::len word"
  assumes "uint w < 2 ^ (LENGTH('a) - 1)"
  shows "sint w = uint w"
proof -
  have "(0::int) \<le> 2 ^ (LENGTH('a) - 1)" by simp
  then have "- (2 ^ (LENGTH('a) - 1)) \<le> uint w"
    using uint_ge_0 [of w] by linarith
  with assms show ?thesis
    by (simp add: sint_uint signed_take_bit_int_eq_self)
qed

lemma uint_ucast_small:
  fixes w :: "'a::len word"
  shows "uint w < 2 ^ LENGTH('b::len) \<Longrightarrow> uint (ucast w :: 'b word) = uint w"
  by (simp add: unsigned_ucast_eq take_bit_int_eq_self)

lemma unat_ucast_small:
  fixes w :: "'a::len word"
  shows "unat w < 2 ^ LENGTH('b::len) \<Longrightarrow> unat (ucast w :: 'b word) = unat w"
  by (simp add: unsigned_ucast_eq take_bit_nat_eq_self)

lemma uint_not_less_neg: "k \<le> 0 \<Longrightarrow> \<not> uint (w::'a::len word) < k"
  using uint_ge_0 [of w] by linarith

lemma neg_less_uint: "k < 0 \<Longrightarrow> k < uint (w::'a::len word)"
  using uint_ge_0 [of w] by linarith

section \<open>The integer encoders\<close>

text \<open>On a non-negative value the signed cascade stores the bytes of the unsigned one.\<close>

lemma encodeInt8_nonneg: "uint (m::8 word) < 128 \<Longrightarrow> encodeInt8 m = encodeUint8 m"
  using sint_of_small [of m]
  by (simp add: encodeInt8_def encodeUint8_def MaxSmallInt_def word_sless_alt
      uint_not_less_neg neg_less_uint word_le_def)

lemma encodeInt16_nonneg: "uint (m::16 word) < 2 ^ 15 \<Longrightarrow> encodeInt16 m = encodeUint16 m"
  using sint_of_small [of m] encodeInt8_nonneg [of "ucast m"]
    uint_ucast_small [of m, where 'b=8]
  by (simp add: encodeInt16_def encodeUint16_def word_sless_alt uint_not_less_neg
      neg_less_uint word_less_alt encodeUint8_def MaxSmallInt_def word_le_def)

lemma encodeInt32_nonneg: "uint (m::32 word) < 2 ^ 31 \<Longrightarrow> encodeInt32 m = encodeUint32 m"
  using sint_of_small [of m] encodeInt16_nonneg [of "ucast m"]
    uint_ucast_small [of m, where 'b=16]
  by (simp add: encodeInt32_def encodeUint32_def word_sless_alt uint_not_less_neg
      neg_less_uint word_less_alt encodeUint16_def)

lemma encodeInt64_nonneg: "uint (m::64 word) < 2 ^ 63 \<Longrightarrow> encodeInt64 m = encodeUint64 m"
  using sint_of_small [of m] encodeInt32_nonneg [of "ucast m"]
    uint_ucast_small [of m, where 'b=32]
  by (simp add: encodeInt64_def encodeUint64_def word_sless_alt uint_not_less_neg
      neg_less_uint word_less_alt encodeUint32_def)

lemma length_encodeUint8: "length (encodeUint8 m) = width (unat m)"
  using unsigned_less [of m, where 'a=nat]
  by (simp add: encodeUint8_def MaxSmallInt_def word_le_nat_alt width_def)

lemma length_encodeUint16: "length (encodeUint16 m) = width (unat m)"
  using unsigned_less [of m, where 'a=nat] unat_ucast_small [of m, where 'b=8]
  by (simp add: encodeUint16_def word_less_nat_alt length_encodeUint8 PutUint16_def width_def)

lemma length_encodeUint32: "length (encodeUint32 m) = width (unat m)"
  using unsigned_less [of m, where 'a=nat] unat_ucast_small [of m, where 'b=16]
  by (simp add: encodeUint32_def word_less_nat_alt length_encodeUint16 PutUint32_def width_def)

lemma length_encodeUint64: "length (encodeUint64 m) = width (unat m)"
  using unsigned_less [of m, where 'a=nat] unat_ucast_small [of m, where 'b=32]
  by (simp add: encodeUint64_def word_less_nat_alt length_encodeUint32 PutUint64_def width_def)

text \<open>
  Claim C2. For every unsigned integer \<open>n\<close> below \<open>2\<^sup>6\<^sup>3\<close>, \<^verbatim>\<open>encode\<close> stores the
  encoding of minimal width, \<open>width n\<close> bytes, and it stores the same bytes whether \<open>n\<close>
  comes as \<^verbatim>\<open>uint64\<close>, \<^verbatim>\<open>uint\<close>, \<^verbatim>\<open>int64\<close> or \<^verbatim>\<open>int\<close>.
\<close>

theorem encode_unsigned_minimal_width:
  fixes n :: "64 word"
  assumes "n < 2 ^ 63"
  shows "encode (VUint64 n) = Inr (encodeUint64 n)
       \<and> encode (VUint n) = Inr (encodeUint64 n)
       \<and> encode (VInt64 n) = Inr (encodeUint64 n)
       \<and> encode (VInt n) = Inr (encodeUint64 n)
       \<and> length (encodeUint64 n) = width (unat n)"
proof -
  have "uint n < 2 ^ 63" using assms by (simp add: word_less_alt)
  then have "encodeInt64 n = encodeUint64 n" by (rule encodeInt64_nonneg)
  then show ?thesis by (simp add: length_encodeUint64)
qed

theorem encode_unsigned_minimal_width_witness:
  "(65536 :: 64 word) < 2 ^ 63
   \<and> encode (VInt64 65536) = Inr [0x1a, 0x00, 0x01, 0x00, 0x00]
   \<and> encode (VUint64 65536) = Inr [0x1a, 0x00, 0x01, 0x00, 0x00]
   \<and> width (unat (65536 :: 64 word)) = 5"
proof -
  have h: "(65536 :: 64 word) < 2 ^ 63" by simp
  have e: "encodeUint64 65536 = [0x1a, 0x00, 0x01, 0x00, 0x00]"
    by (simp add: encodeUint64_def encodeUint32_def PutUint32_def hdr_def cbor_consts)
  show ?thesis
    using encode_unsigned_minimal_width [OF h] by (simp add: e width_def)
qed

text \<open>
  Claim C4. \<^verbatim>\<open>encode\<close> on the small-integer boundaries, with Go \<^verbatim>\<open>int\<close> arguments: the bytes
  are \<open>00\<close> for 0, \<open>17\<close> for 23, \<open>18 18\<close> for 24, \<open>20\<close> for -1 and \<open>38 18\<close> for -25. For -24
  the source stores the two bytes \<open>38 17\<close>, not the single byte \<open>37\<close>: \<^verbatim>\<open>encodeInt8\<close>
  compares with \<^verbatim>\<open>-MaxSmallInt\<close>, which is -23.
\<close>

theorem encode_small_integer_boundaries:
  "encode (VInt 0) = Inr [0x00]
   \<and> encode (VInt 23) = Inr [0x17]
   \<and> encode (VInt 24) = Inr [0x18, 0x18]
   \<and> encode (VInt (- 1)) = Inr [0x20]
   \<and> encode (VInt (- 24)) = Inr [0x38, 0x17]
   \<and> encode (VInt (- 25)) = Inr [0x38, 0x18]"
  by code_simp

section \<open>Header bytes and the table of decoders\<close>

lemma hdr_major_info: "hdr (major b) (info b) = b"
proof -
  have "(b AND 0xe0) OR (b AND 0x1f) = b AND (0xe0 OR 0x1f)"
    by (simp only: bit.conj_disj_distrib)
  also have "(0xe0 OR 0x1f :: byte) = - 1" by simp
  finally show ?thesis by (simp add: hdr_def major_def info_def and.assoc)
qed

lemma in_bytes_upto:
  fixes i :: byte
  assumes "unat i < n"
  shows "i \<in> set (bytes_upto n)"
proof -
  have "unat i \<in> set [0..<n]" using assms by simp
  then have "of_nat (unat i) \<in> set (bytes_upto n)"
    unfolding bytes_upto_def by (simp only: set_map image_eqI)
  then show ?thesis by simp
qed

lemma in_segment:
  "unat i < n \<Longrightarrow> (f i, c) \<in> set (map (\<lambda>i. (f i, c)) (bytes_upto n))"
  using in_bytes_upto [of i n] by (simp add: image_iff) blast

lemma distinct_bytes_upto:
  assumes n: "n \<le> 256"
  shows "distinct (bytes_upto n)"
proof -
  have "x = y" if "x < n" "y < n" "(of_nat x :: byte) = of_nat y" for x y
  proof -
    have "unat (of_nat x :: byte) = unat (of_nat y :: byte)" using that by simp
    moreover have "unat (of_nat x :: byte) = x" using that(1) n by (simp add: unat_of_nat)
    moreover have "unat (of_nat y :: byte) = y" using that(2) n by (simp add: unat_of_nat)
    ultimately show ?thesis by simp
  qed
  then show ?thesis
    unfolding bytes_upto_def distinct_map by (auto simp: inj_on_def)
qed

text \<open>\<^verbatim>\<open>init\<close> assigns to the 256 header bytes in increasing order, each once.\<close>

lemma cborDecoders_init_keys: "map fst (cborDecoders_init dt) = bytes_upto 256"
  by (simp add: cborDecoders_init_def bytes_upto_def hdr_def cbor_consts
      upt_rec [of _ "numeral _"])

lemma cborDecoders_member:
  assumes "(b, dec) \<in> set (cborDecoders_init dt)"
  shows "cborDecoders dt b = Some dec"
proof -
  have "distinct (map fst (rev (cborDecoders_init dt)))"
    by (simp add: rev_map [symmetric] cborDecoders_init_keys distinct_bytes_upto)
  then show ?thesis
    unfolding cborDecoders_def using assms by (intro map_of_is_SomeI) simp_all
qed

lemma cborDecoders_reserved:
  assumes "m \<in> {type0, type1, type2, type3, type4, type5, type6}" and "i \<in> {28, 29, 30}"
  shows "cborDecoders dt (hdr m i) = Some (makePanic ErrorDecodeInfoReserved)"
  apply (rule cborDecoders_member)
  unfolding cborDecoders_init_def
  apply (simp only: set_append Un_iff list.set insert_iff empty_iff)
  using assms apply (elim insertE emptyE; simp)
  done

lemma cborDecoders_reserved7:
  assumes "i \<in> {28, 29, 30}"
  shows "cborDecoders dt (hdr type7 i) = Some (makePanic ErrorDecodeSimpleType)"
  apply (rule cborDecoders_member)
  unfolding cborDecoders_init_def
  apply (simp only: set_append Un_iff list.set insert_iff empty_iff)
  using assms apply (elim insertE emptyE; simp)
  done

lemma cborDecoders_indefinite016:
  assumes "m \<in> {type0, type1, type6}"
  shows "cborDecoders dt (hdr m indefiniteLength) = Some (makePanic ErrorDecodeIndefinite)"
  apply (rule cborDecoders_member)
  unfolding cborDecoders_init_def
  apply (simp only: set_append Un_iff list.set insert_iff empty_iff)
  using assms apply (elim insertE emptyE; simp)
  done

lemma decode_makePanic:
  assumes "cborDecoders dt b = Some (makePanic e)"
  shows "decode dt (Suc fuel) (b # rest) = Some (Inl e)"
  using assms by (simp add: index_def makePanic_def bind_d_def)

text \<open>
  Claim C8. A header byte with info 28, 29 or 30 makes \<^verbatim>\<open>decode\<close> panic with
  \<^verbatim>\<open>ErrorDecodeInfoReserved\<close> on the major types 0 to 6 and with \<^verbatim>\<open>ErrorDecodeSimpleType\<close>
  on major type 7; a header byte with info 31 on the major types 0, 1 and 6 makes it
  panic with \<^verbatim>\<open>ErrorDecodeIndefinite\<close>. This holds whatever follows the header byte and
  for every positive fuel, so no such header byte decodes to a value.
\<close>

theorem decode_reserved_info:
  "(info b \<in> {28, 29, 30} \<and> major b \<in> {type0, type1, type2, type3, type4, type5, type6}
      \<longrightarrow> decode dt (Suc fuel) (b # rest) = Some (Inl ErrorDecodeInfoReserved))
   \<and> (info b \<in> {28, 29, 30} \<and> major b = type7
      \<longrightarrow> decode dt (Suc fuel) (b # rest) = Some (Inl ErrorDecodeSimpleType))
   \<and> (info b = 31 \<and> major b \<in> {type0, type1, type6}
      \<longrightarrow> decode dt (Suc fuel) (b # rest) = Some (Inl ErrorDecodeIndefinite))"
proof (intro conjI impI)
  assume "info b \<in> {28, 29, 30} \<and> major b \<in> {type0, type1, type2, type3, type4, type5, type6}"
  then have "cborDecoders dt (hdr (major b) (info b)) = Some (makePanic ErrorDecodeInfoReserved)"
    by (intro cborDecoders_reserved) simp_all
  then show "decode dt (Suc fuel) (b # rest) = Some (Inl ErrorDecodeInfoReserved)"
    by (simp only: hdr_major_info decode_makePanic)
next
  assume "info b \<in> {28, 29, 30} \<and> major b = type7"
  then have "cborDecoders dt (hdr (major b) (info b)) = Some (makePanic ErrorDecodeSimpleType)"
    using cborDecoders_reserved7 [of "info b" dt] by simp
  then show "decode dt (Suc fuel) (b # rest) = Some (Inl ErrorDecodeSimpleType)"
    by (simp only: hdr_major_info decode_makePanic)
next
  assume "info b = 31 \<and> major b \<in> {type0, type1, type6}"
  then have "cborDecoders dt (hdr (major b) (info b)) = Some (makePanic ErrorDecodeIndefinite)"
    using cborDecoders_indefinite016 [of "major b" dt] by (simp add: indefiniteLength_def)
  then show "decode dt (Suc fuel) (b # rest) = Some (Inl ErrorDecodeIndefinite)"
    by (simp only: hdr_major_info decode_makePanic)
qed

theorem decode_reserved_info_witness:
  "info 0x5c \<in> {28, 29, 30} \<and> major 0x5c \<in> {type0, type1, type2, type3, type4, type5, type6}
   \<and> decode (makePanic RuntimeError) 1 [0x5c, 0x00] = Some (Inl ErrorDecodeInfoReserved)
   \<and> info 0xfd \<in> {28, 29, 30} \<and> major 0xfd = type7
   \<and> decode (makePanic RuntimeError) 1 [0xfd] = Some (Inl ErrorDecodeSimpleType)
   \<and> info 0xdf = 31 \<and> major 0xdf \<in> {type0, type1, type6}
   \<and> decode (makePanic RuntimeError) 1 [0xdf, 0x01] = Some (Inl ErrorDecodeIndefinite)"
proof -
  have a: "info 0x5c \<in> {28, 29, 30} \<and> major 0x5c \<in> {type0, type1, type2, type3, type4, type5, type6}"
    by (simp add: info_def major_def cbor_consts)
  have b: "info 0xfd \<in> {28, 29, 30} \<and> major 0xfd = type7"
    by (simp add: info_def major_def cbor_consts)
  have c: "info 0xdf = 31 \<and> major 0xdf \<in> {type0, type1, type6}"
    by (simp add: info_def major_def cbor_consts)
  show ?thesis
    using a b c decode_reserved_info [of "0x5c" "makePanic RuntimeError" 0 "[0x00]"]
      decode_reserved_info [of "0xfd" "makePanic RuntimeError" 0 "[]"]
      decode_reserved_info [of "0xdf" "makePanic RuntimeError" 0 "[0x01]"]
    by simp
qed

lemma cborDecoders_type0_small:
  "unat i < 24 \<Longrightarrow> cborDecoders dt (hdr type0 i) = Some (simple_decoder decodeType0SmallInt)"
  apply (rule cborDecoders_member)
  apply (drule in_segment [where f="hdr type0" and c="simple_decoder decodeType0SmallInt"])
  unfolding cborDecoders_init_def
  apply (simp only: set_append Un_iff simp_thms)
  done

lemma cborDecoders_type1_small:
  "unat i < 24 \<Longrightarrow> cborDecoders dt (hdr type1 i) = Some (simple_decoder decodeType1SmallInt)"
  apply (rule cborDecoders_member)
  apply (drule in_segment [where f="hdr type1" and c="simple_decoder decodeType1SmallInt"])
  unfolding cborDecoders_init_def
  apply (simp only: set_append Un_iff simp_thms)
  done

lemma cborDecoders_type2:
  "unat i < 28 \<Longrightarrow> cborDecoders dt (hdr type2 i) = Some (simple_decoder decodeType2)"
  apply (rule cborDecoders_member)
  apply (drule in_segment [where f="hdr type2" and c="simple_decoder decodeType2"])
  unfolding cborDecoders_init_def
  apply (simp only: set_append Un_iff simp_thms)
  done

lemma cborDecoders_type3:
  "unat i < 28 \<Longrightarrow> cborDecoders dt (hdr type3 i) = Some (simple_decoder decodeType3)"
  apply (rule cborDecoders_member)
  apply (drule in_segment [where f="hdr type3" and c="simple_decoder decodeType3"])
  unfolding cborDecoders_init_def
  apply (simp only: set_append Un_iff simp_thms)
  done

lemma cborDecoders_type4:
  "unat i < 28 \<Longrightarrow> cborDecoders dt (hdr type4 i) = Some decodeType4"
  apply (rule cborDecoders_member)
  apply (drule in_segment [where f="hdr type4" and c="decodeType4"])
  unfolding cborDecoders_init_def
  apply (simp only: set_append Un_iff simp_thms)
  done

lemma cborDecoders_type5:
  "unat i < 28 \<Longrightarrow> cborDecoders dt (hdr type5 i) = Some decodeType5"
  apply (rule cborDecoders_member)
  apply (drule in_segment [where f="hdr type5" and c="decodeType5"])
  unfolding cborDecoders_init_def
  apply (simp only: set_append Un_iff simp_thms)
  done

lemma cborDecoders_entries:
  "cborDecoders dt (hdr type0 info24) = Some (simple_decoder decodeType0Info24)"
  "cborDecoders dt (hdr type0 info25) = Some (simple_decoder decodeType0Info25)"
  "cborDecoders dt (hdr type0 info26) = Some (simple_decoder decodeType0Info26)"
  "cborDecoders dt (hdr type0 info27) = Some (simple_decoder decodeType0Info27)"
  "cborDecoders dt (hdr type1 info24) = Some (simple_decoder decodeType1Info24)"
  "cborDecoders dt (hdr type1 info25) = Some (simple_decoder decodeType1Info25)"
  "cborDecoders dt (hdr type1 info26) = Some (simple_decoder decodeType1Info26)"
  "cborDecoders dt (hdr type1 info27) = Some (simple_decoder decodeType1Info27)"
  "cborDecoders dt (hdr type2 indefiniteLength) = Some (simple_decoder decodeType2Indefinite)"
  "cborDecoders dt (hdr type3 indefiniteLength) = Some (simple_decoder decodeType3Indefinite)"
  "cborDecoders dt (hdr type4 indefiniteLength) = Some (simple_decoder decodeType4Indefinite)"
  "cborDecoders dt (hdr type5 indefiniteLength) = Some (simple_decoder decodeType5Indefinite)"
  "cborDecoders dt (hdr type7 simpleTypeFalse) = Some (simple_decoder decodeFalse)"
  "cborDecoders dt (hdr type7 simpleTypeTrue) = Some (simple_decoder decodeTrue)"
  "cborDecoders dt (hdr type7 simpleTypeNil) = Some (simple_decoder decodeNull)"
  "cborDecoders dt (hdr type7 simpleUndefined) = Some (simple_decoder decodeUndefined)"
  "cborDecoders dt (hdr type7 simpleTypeByte) = Some (simple_decoder decodeSimpleTypeByte)"
  "cborDecoders dt (hdr type7 flt16) = Some (simple_decoder decodeFloat16)"
  "cborDecoders dt (hdr type7 flt32) = Some (simple_decoder decodeFloat32)"
  "cborDecoders dt (hdr type7 flt64) = Some (simple_decoder decodeFloat64)"
  "cborDecoders dt (hdr type7 itemBreak) = Some (simple_decoder decodeBreakCode)"
  by (rule cborDecoders_member,
      simp only: cborDecoders_init_def set_append Un_iff list.set insert_iff simp_thms)+

text \<open>
  Claim C10. On a buffer that starts with the header of an indefinite byte string
  (\<open>5F\<close>) or of an indefinite text string (\<open>7F\<close>), \<^verbatim>\<open>decode\<close> returns the \<^verbatim>\<open>Indefinite\<close>
  value of the header byte and the count 1, whatever follows: neither the chunks nor
  the break-stop are consumed. On an indefinite array or map it decodes the items up to
  the break-stop, as the two examples show.
\<close>

theorem decode_indefinite_string_sentinel:
  "decode dt (Suc fuel) (0x5f # rest) = Some (Inr (VIndefinite 0x5f, 1))
   \<and> decode dt (Suc fuel) (0x7f # rest) = Some (Inr (VIndefinite 0x7f, 1))
   \<and> decode dt (Suc (Suc fuel)) [0x5f, 0x41, 0x01, 0xff] = Some (Inr (VIndefinite 0x5f, 1))
   \<and> decode dt (Suc (Suc (Suc fuel))) [0x9f, 0x01, 0xff] = Some (Inr (VArray [VUint64 1], 3))
   \<and> decode dt (Suc (Suc (Suc fuel))) [0xbf, 0x01, 0x02, 0xff]
       = Some (Inr (VMap [(VUint64 1, VUint64 2)], 4))"
proof -
  have t: "cborDecoders dt 0x5f = Some (simple_decoder decodeType2Indefinite)"
    "cborDecoders dt 0x7f = Some (simple_decoder decodeType3Indefinite)"
    "cborDecoders dt 0x9f = Some (simple_decoder decodeType4Indefinite)"
    "cborDecoders dt 0xbf = Some (simple_decoder decodeType5Indefinite)"
    "cborDecoders dt 0x01 = Some (simple_decoder decodeType0SmallInt)"
    "cborDecoders dt 0x02 = Some (simple_decoder decodeType0SmallInt)"
    using cborDecoders_entries [of dt] cborDecoders_type0_small [of 1 dt]
      cborDecoders_type0_small [of 2 dt]
    by (simp_all add: hdr_def cbor_consts)
  have m: "major 0x5f = type2" "major 0x7f = type3" "major 0x9f = type4" "major 0xbf = type5"
    "type2 \<noteq> type4" "type2 \<noteq> type5" "type3 \<noteq> type4" "type3 \<noteq> type5" "type5 \<noteq> type4"
    by (simp_all add: major_def cbor_consts)
  have i: "info 1 = 1" "info 2 = 2" "brkstp = 0xff"
    by (simp_all add: info_def brkstp_def hdr_def cbor_consts)
  have s: "decode dt (Suc fuel) (0x5f # rest) = Some (Inr (VIndefinite 0x5f, 1))"
    "decode dt (Suc fuel) (0x7f # rest) = Some (Inr (VIndefinite 0x7f, 1))" for fuel rest
    by (simp_all add: t m index_def simple_decoder_def decodeType2Indefinite_def
        decodeType3Indefinite_def bind_e_def bind_d_def is_Indefinite_def)
  have a: "decode dt (Suc (Suc (Suc fuel))) [0x9f, 0x01, 0xff] = Some (Inr (VArray [VUint64 1], 3))"
    by (simp add: t m i index_def slice_from_def simple_decoder_def decodeType4Indefinite_def
        decodeType0SmallInt_def bind_e_def bind_d_def is_Indefinite_def)
  have b: "decode dt (Suc (Suc (Suc fuel))) [0xbf, 0x01, 0x02, 0xff]
       = Some (Inr (VMap [(VUint64 1, VUint64 2)], 4))"
    by (simp add: t m i index_def slice_from_def simple_decoder_def decodeType5Indefinite_def
        decodeType0SmallInt_def bind_e_def bind_d_def is_Indefinite_def)
  show ?thesis using s a b by simp
qed

text \<open>
  Claim C3. Under a major-type-1 header with info 24, 25 or 26 the source adds 1 to the
  payload in the payload's own width before it widens the sum: the payloads 255, 65535
  and \<open>2\<^sup>3\<^sup>2 - 1\<close> wrap to 0 and \<^verbatim>\<open>decode\<close> returns 0, not -256, -65536 and \<open>-2\<^sup>3\<^sup>2\<close>.
  Below these payloads it returns \<open>-p - 1\<close>, here for \<open>p = 254\<close>; info 27 takes the
  payload \<open>2\<^sup>6\<^sup>3 - 1\<close> to \<open>-2\<^sup>6\<^sup>3\<close> and panics with \<^verbatim>\<open>ErrorDecodeExceedInt64\<close> on \<open>2\<^sup>6\<^sup>3\<close>.
\<close>

theorem decode_type1_payload_wraps:
  "decode dt (Suc fuel) [0x38, 0xff] = Some (Inr (VInt64 0, 2))
   \<and> decode dt (Suc fuel) [0x39, 0xff, 0xff] = Some (Inr (VInt64 0, 3))
   \<and> decode dt (Suc fuel) [0x3a, 0xff, 0xff, 0xff, 0xff] = Some (Inr (VInt64 0, 5))
   \<and> decode dt (Suc fuel) [0x38, 0xfe] = Some (Inr (VInt64 (- 255), 2))
   \<and> decode dt (Suc fuel) [0x3b, 0x7f, 0xff, 0xff, 0xff, 0xff, 0xff, 0xff, 0xff]
       = Some (Inr (VInt64 (- (2 ^ 63)), 9))
   \<and> decode dt (Suc fuel) [0x3b, 0x80, 0x00, 0x00, 0x00, 0x00, 0x00, 0x00, 0x00]
       = Some (Inl ErrorDecodeExceedInt64)"
proof -
  have t: "cborDecoders dt 0x38 = Some (simple_decoder decodeType1Info24)"
    "cborDecoders dt 0x39 = Some (simple_decoder decodeType1Info25)"
    "cborDecoders dt 0x3a = Some (simple_decoder decodeType1Info26)"
    "cborDecoders dt 0x3b = Some (simple_decoder decodeType1Info27)"
    using cborDecoders_entries [of dt] by (simp_all add: hdr_def cbor_consts)
  show ?thesis
    by (simp add: t index_def slice_from_def simple_decoder_def decodeType1Info24_def
        decodeType1Info25_def decodeType1Info26_def decodeType1Info27_def Uint16_def
        Uint32_def Uint64_def bind_e_def bind_d_def is_Indefinite_def)
qed

section \<open>Lookup and edit\<close>

lemmas walker_defs =
  get_def set_doc_def del_def lookup_def partial_def mapIndex_def bind_r_def bind_e_def
  lift_e_def index_def index_i_def slice_from_def slice_from_i_def slice_i_def
  slice_to_i_def slice_def IsIndefiniteText_def hdr_def major_def info_def decodeLength_def
  Atoi_def digits_value_def is_digit_def copy_def

text \<open>
  Claim C5. The CBOR pointer of the text pointer \<open>/1\<close> is \<open>7F D8 21 61 31 FF\<close>. On the
  document \<open>9F 01 02 03 FF\<close> \<^verbatim>\<open>get\<close> returns with it the byte \<open>01\<close>, the item of index 0,
  not the byte \<open>02\<close>: \<^verbatim>\<open>partial\<close> takes the offset that \<^verbatim>\<open>arrayIndex\<close> counts from
  \<^verbatim>\<open>doc[1:]\<close> for an offset into \<^verbatim>\<open>doc\<close>. The byte \<open>02\<close> is what the pointer \<open>/2\<close> gets.
\<close>

theorem get_array_index_off_by_one:
  "FromJsonPointer [0x2f, 0x31] = Some (Inr [0x7f, 0xd8, 0x21, 0x61, 0x31, 0xff])
   \<and> get (5 + fuel) [0x9f, 0x01, 0x02, 0x03, 0xff] [0x7f, 0xd8, 0x21, 0x61, 0x31, 0xff]
       = Some (Inr [0x01])
   \<and> get (5 + fuel) [0x9f, 0x01, 0x02, 0x03, 0xff] [0x7f, 0xd8, 0x21, 0x61, 0x32, 0xff]
       = Some (Inr [0x02])"
proof -
  have f: "FromJsonPointer [0x2f, 0x31] = Some (Inr [0x7f, 0xd8, 0x21, 0x61, 0x31, 0xff])"
    by code_simp
  have n: "5 + fuel = Suc (Suc (Suc (Suc (Suc fuel))))" by simp
  have g1: "get (5 + fuel) [0x9f, 0x01, 0x02, 0x03, 0xff] [0x7f, 0xd8, 0x21, 0x61, 0x31, 0xff]
       = Some (Inr [0x01])"
    unfolding n by (simp add: walker_defs cbor_consts)
  have g2: "get (5 + fuel) [0x9f, 0x01, 0x02, 0x03, 0xff] [0x7f, 0xd8, 0x21, 0x61, 0x32, 0xff]
       = Some (Inr [0x02])"
    unfolding n by (simp add: walker_defs cbor_consts)
  show ?thesis using f g1 g2 by simp
qed

text \<open>
  Claim C6. \<^verbatim>\<open>set\<close> copies \<^verbatim>\<open>doc[:n]\<close>, \<^verbatim>\<open>item\<close> and \<^verbatim>\<open>doc[m:]\<close> into \<^verbatim>\<open>out\<close> one after the
  other, each from index 0 of \<^verbatim>\<open>out\<close>, so the later copies overwrite the earlier ones.
  On the document \<open>9F 01 02 03 FF\<close>, the pointer \<open>/1\<close> (which locates the range 1 to 2),
  the item \<open>05\<close> and a zeroed buffer of five bytes it leaves \<open>02 03 FF 00 00\<close> in
  \<^verbatim>\<open>out\<close>, not the splice \<open>9F 05 02 03 FF\<close>.
\<close>

theorem set_overwrites_from_start:
  "lookup (4 + fuel) [0x7f, 0xd8, 0x21, 0x61, 0x31, 0xff] [0x9f, 0x01, 0x02, 0x03, 0xff]
     = Some (Inr (1, 2))
   \<and> set_doc (4 + fuel) [0x9f, 0x01, 0x02, 0x03, 0xff] [0x7f, 0xd8, 0x21, 0x61, 0x31, 0xff]
       [0x05] [0, 0, 0, 0, 0]
     = Some (Inr [0x02, 0x03, 0xff, 0x00, 0x00])"
proof -
  have n: "4 + fuel = Suc (Suc (Suc (Suc fuel)))" by simp
  show ?thesis
    unfolding n by (simp add: walker_defs cbor_consts)
qed

section \<open>Conversion of pointers\<close>

text \<open>
  A state of the loop of \<^verbatim>\<open>FromJsonPointer\<close> at a \<^verbatim>\<open>~\<close> that neither \<^verbatim>\<open>1\<close> nor \<^verbatim>\<open>0\<close>
  follows is its own successor: the loop does not return from it.
\<close>

lemma FromJsonPointer_loop_stuck:
  assumes "i < length path" "path ! i = 0x7e" "i + 1 < length path"
    "path ! (i + 1) \<noteq> 0x31" "path ! (i + 1) \<noteq> 0x30"
  shows "FromJsonPointer_loop path i part out = None"
proof (rule ccontr)
  assume "FromJsonPointer_loop path i part out \<noteq> None"
  then obtain y where y: "FromJsonPointer_loop path i part out = Some y" by auto
  have "\<not> (b < length a \<and> a ! b = 0x7e \<and> b + 1 < length a
           \<and> a ! (b + 1) \<noteq> 0x31 \<and> a ! (b + 1) \<noteq> 0x30)"
    if "FromJsonPointer_loop a b c d = Some z" for a b c d z
    by (rule FromJsonPointer_loop.raw_induct
          [where P = "\<lambda>a b c d z. \<not> (b < length a \<and> a ! b = 0x7e \<and> b + 1 < length a
             \<and> a ! (b + 1) \<noteq> 0x31 \<and> a ! (b + 1) \<noteq> 0x30)", OF _ that])
       (simp split: if_splits, blast)
  from this [OF y] assms show False by simp
qed

text \<open>
  So is a state of the loop of \<^verbatim>\<open>ToJsonPointer\<close> at a byte that neither starts a tag
  with a one-byte number nor is the break-stop.
\<close>

lemma ToJsonPointer_loop_stuck:
  assumes "i < length bin" "bin ! i \<noteq> hdr type6 info24" "bin ! i \<noteq> hdr type7 itemBreak"
  shows "ToJsonPointer_loop bin i out = None"
proof (rule ccontr)
  assume "ToJsonPointer_loop bin i out \<noteq> None"
  then obtain y where y: "ToJsonPointer_loop bin i out = Some y" by auto
  have "\<not> (b < length a \<and> a ! b \<noteq> hdr type6 info24 \<and> a ! b \<noteq> hdr type7 itemBreak)"
    if "ToJsonPointer_loop a b c = Some z" for a b c z
    by (rule ToJsonPointer_loop.raw_induct
          [where P = "\<lambda>a b c z. \<not> (b < length a \<and> a ! b \<noteq> hdr type6 info24
             \<and> a ! b \<noteq> hdr type7 itemBreak)", OF _ that])
       (auto simp: index_def split: if_splits)
  from this [OF y] assms show False by simp
qed

text \<open>
  Claim C9. \<^verbatim>\<open>FromJsonPointer\<close> does not return on the path \<open>/~2\<close>, and \<^verbatim>\<open>ToJsonPointer\<close>
  does not return on the bytes \<open>7F 00\<close>: neither runs to completion nor fails there.
\<close>

theorem pointer_conversion_diverges:
  "FromJsonPointer [0x2f, 0x7e, 0x32] = None \<and> ToJsonPointer [0x7f, 0x00] = None"
proof -
  have "FromJsonPointer_loop [0x2f, 0x7e, 0x32] (Suc 0) [] out = None" for out
    by (rule FromJsonPointer_loop_stuck) simp_all
  then have a: "FromJsonPointer [0x2f, 0x7e, 0x32] = None"
    by (simp add: FromJsonPointer_def FromJsonPointer_loop.simps [of _ 0] bind_r_def)
  have "ToJsonPointer_loop [0x7f, 0x00] 1 [] = None"
    by (rule ToJsonPointer_loop_stuck) (simp_all add: hdr_def cbor_consts)
  then have b: "ToJsonPointer [0x7f, 0x00] = None"
    by (simp add: ToJsonPointer_def index_def IsIndefiniteText_def hdr_def cbor_consts)
  show ?thesis using a b by simp
qed

section \<open>Big-endian payloads\<close>

lemma low_byte_split:
  fixes w :: "'a::len word"
  assumes "8 \<le> LENGTH('a)"
  shows "w = ucast (ucast w :: byte) OR push_bit 8 (drop_bit 8 w)"
proof (rule bit_word_eqI)
  fix n assume n: "n < LENGTH('a)"
  show "bit w n = bit (ucast (ucast w :: byte) OR push_bit 8 (drop_bit 8 w)) n"
  proof (cases "n < 8")
    case True
    with n show ?thesis by (simp add: bit_simps)
  next
    case False
    then have "8 + (n - 8) = n" by simp
    with False n show ?thesis by (simp add: bit_simps)
  qed
qed

lemma Uint16_PutUint16: "Uint16 (PutUint16 v @ rest) = Inr v"
proof -
  have "v = ucast (ucast v :: byte) OR push_bit 8 (drop_bit 8 v)"
    by (rule low_byte_split) simp
  also have "drop_bit 8 v =
      ucast (ucast (drop_bit 8 v) :: byte) OR push_bit 8 (drop_bit 8 (drop_bit 8 v))"
    by (rule low_byte_split) simp
  finally have "v = ucast (ucast v :: byte) OR push_bit 8 (ucast (ucast (drop_bit 8 v) :: byte))"
    by simp
  then show ?thesis
    by (simp add: Uint16_def PutUint16_def)
qed

lemma Uint32_PutUint32: "Uint32 (PutUint32 v @ rest) = Inr v"
proof -
  have "v = ucast (ucast v :: byte) OR push_bit 8 (drop_bit 8 v)"
    by (rule low_byte_split) simp
  also have "drop_bit 8 v =
      ucast (ucast (drop_bit 8 v) :: byte) OR push_bit 8 (drop_bit 8 (drop_bit 8 v))"
    by (rule low_byte_split) simp
  also have "drop_bit 8 (drop_bit 8 v) = drop_bit 16 v" by simp
  also have "drop_bit 16 v =
      ucast (ucast (drop_bit 16 v) :: byte) OR push_bit 8 (drop_bit 8 (drop_bit 16 v))"
    by (rule low_byte_split) simp
  also have "drop_bit 8 (drop_bit 16 v) = drop_bit 24 v" by simp
  also have "drop_bit 24 v =
      ucast (ucast (drop_bit 24 v) :: byte) OR push_bit 8 (drop_bit 8 (drop_bit 24 v))"
    by (rule low_byte_split) simp
  finally have "v = ucast (ucast v :: byte) OR push_bit 8 (ucast (ucast (drop_bit 8 v) :: byte))
      OR push_bit 16 (ucast (ucast (drop_bit 16 v) :: byte))
      OR push_bit 24 (ucast (ucast (drop_bit 24 v) :: byte))"
    by (simp add: or.assoc)
  then show ?thesis
    by (simp add: Uint32_def PutUint32_def)
qed

lemma Uint64_PutUint64: "Uint64 (PutUint64 v @ rest) = Inr v"
proof -
  have "v = ucast (ucast v :: byte) OR push_bit 8 (drop_bit 8 v)"
    by (rule low_byte_split) simp
  also have "drop_bit 8 v =
      ucast (ucast (drop_bit 8 v) :: byte) OR push_bit 8 (drop_bit 8 (drop_bit 8 v))"
    by (rule low_byte_split) simp
  also have "drop_bit 8 (drop_bit 8 v) = drop_bit 16 v" by simp
  also have "drop_bit 16 v =
      ucast (ucast (drop_bit 16 v) :: byte) OR push_bit 8 (drop_bit 8 (drop_bit 16 v))"
    by (rule low_byte_split) simp
  also have "drop_bit 8 (drop_bit 16 v) = drop_bit 24 v" by simp
  also have "drop_bit 24 v =
      ucast (ucast (drop_bit 24 v) :: byte) OR push_bit 8 (drop_bit 8 (drop_bit 24 v))"
    by (rule low_byte_split) simp
  also have "drop_bit 8 (drop_bit 24 v) = drop_bit 32 v" by simp
  also have "drop_bit 32 v =
      ucast (ucast (drop_bit 32 v) :: byte) OR push_bit 8 (drop_bit 8 (drop_bit 32 v))"
    by (rule low_byte_split) simp
  also have "drop_bit 8 (drop_bit 32 v) = drop_bit 40 v" by simp
  also have "drop_bit 40 v =
      ucast (ucast (drop_bit 40 v) :: byte) OR push_bit 8 (drop_bit 8 (drop_bit 40 v))"
    by (rule low_byte_split) simp
  also have "drop_bit 8 (drop_bit 40 v) = drop_bit 48 v" by simp
  also have "drop_bit 48 v =
      ucast (ucast (drop_bit 48 v) :: byte) OR push_bit 8 (drop_bit 8 (drop_bit 48 v))"
    by (rule low_byte_split) simp
  also have "drop_bit 8 (drop_bit 48 v) = drop_bit 56 v" by simp
  also have "drop_bit 56 v =
      ucast (ucast (drop_bit 56 v) :: byte) OR push_bit 8 (drop_bit 8 (drop_bit 56 v))"
    by (rule low_byte_split) simp
  finally have "v = ucast (ucast v :: byte) OR push_bit 8 (ucast (ucast (drop_bit 8 v) :: byte))
      OR push_bit 16 (ucast (ucast (drop_bit 16 v) :: byte))
      OR push_bit 24 (ucast (ucast (drop_bit 24 v) :: byte))
      OR push_bit 32 (ucast (ucast (drop_bit 32 v) :: byte))
      OR push_bit 40 (ucast (ucast (drop_bit 40 v) :: byte))
      OR push_bit 48 (ucast (ucast (drop_bit 48 v) :: byte))
      OR push_bit 56 (ucast (ucast (drop_bit 56 v) :: byte))"
    by (simp add: or.assoc)
  then show ?thesis
    by (simp add: Uint64_def PutUint64_def)
qed

section \<open>Headers\<close>

lemma ucast_up_down:
  fixes w :: "'a::len word"
  assumes "LENGTH('a) \<le> LENGTH('b::len)"
  shows "(ucast (ucast w :: 'b word) :: 'a word) = w"
  using assms by (intro bit_word_eqI) (auto simp add: bit_simps)

lemma ucast_down_down:
  fixes w :: "'a::len word"
  assumes "LENGTH('c::len) \<le> LENGTH('b::len)"
  shows "(ucast (ucast w :: 'b word) :: 'c word) = ucast w"
  using assms by (intro bit_word_eqI) (auto simp add: bit_simps)

lemma width_class_le: "width_class n \<le> 4"
  by (simp add: width_class_def)

lemma payload_len_width_class: "payload_len (width_class n) = width n"
  by (simp add: payload_len_def width_class_def width_def)

lemma encodeUint8_uint_item: "encodeUint8 m = uint_item type0 (unat m)"
  using unsigned_less [of m, where 'a=nat]
  by (simp add: encodeUint8_def uint_item_def payload_item_def width_class_def MaxSmallInt_def
      word_le_nat_alt ucast_up_down)

lemma encodeUint16_uint_item: "encodeUint16 m = uint_item type0 (unat m)"
proof (cases "m < 256")
  case True
  then have "unat m < 2 ^ LENGTH(8)" by (simp add: word_less_nat_alt)
  then have "unat (ucast m :: byte) = unat m" by (rule unat_ucast_small)
  with True show ?thesis by (simp add: encodeUint16_def encodeUint8_uint_item)
next
  case False
  then have "256 \<le> unat m" by (simp add: word_less_nat_alt)
  with False show ?thesis
    using unsigned_less [of m, where 'a=nat]
    by (simp add: encodeUint16_def uint_item_def payload_item_def width_class_def ucast_up_down)
qed

lemma encodeUint32_uint_item: "encodeUint32 m = uint_item type0 (unat m)"
proof (cases "m < 65536")
  case True
  then have "unat m < 2 ^ LENGTH(16)" by (simp add: word_less_nat_alt)
  then have "unat (ucast m :: 16 word) = unat m" by (rule unat_ucast_small)
  with True show ?thesis by (simp add: encodeUint32_def encodeUint16_uint_item)
next
  case False
  then have "65536 \<le> unat m" by (simp add: word_less_nat_alt)
  with False show ?thesis
    using unsigned_less [of m, where 'a=nat]
    by (simp add: encodeUint32_def uint_item_def payload_item_def width_class_def ucast_up_down)
qed

lemma encodeUint64_uint_item: "encodeUint64 m = uint_item type0 (unat m)"
proof (cases "m < 4294967296")
  case True
  then have "unat m < 2 ^ LENGTH(32)" by (simp add: word_less_nat_alt)
  then have "unat (ucast m :: 32 word) = unat m" by (rule unat_ucast_small)
  with True show ?thesis by (simp add: encodeUint64_def encodeUint32_uint_item)
next
  case False
  then have "4294967296 \<le> unat m" by (simp add: word_less_nat_alt)
  with False show ?thesis
    by (simp add: encodeUint64_def uint_item_def payload_item_def width_class_def)
qed


lemma info_hdr: "unat i < 32 \<Longrightarrow> info (hdr t i) = i"
proof -
  assume "unat i < 32"
  then have "i < 32" by (simp add: word_less_nat_alt)
  then have m: "i AND 0x1f = i"
    using less_mask_eq [of i 5] by (simp add: mask_eq_exp_minus_1)
  have "((t AND 0xe0) OR i) AND 0x1f = ((t AND 0xe0) AND 0x1f) OR (i AND 0x1f)"
    by (simp only: bit.conj_disj_distrib2)
  also have "(t AND 0xe0) AND 0x1f = 0" by (simp add: and.assoc)
  finally show ?thesis by (simp add: info_def hdr_def m)
qed

lemma major_hdr: "t AND 0xe0 = t \<Longrightarrow> unat i < 32 \<Longrightarrow> major (hdr t i) = t"
proof -
  assume t: "t AND 0xe0 = t" and "unat i < 32"
  then have "i < 32" by (simp add: word_less_nat_alt)
  then have m: "i AND 0x1f = i"
    using less_mask_eq [of i 5] by (simp add: mask_eq_exp_minus_1)
  have "(t OR i) AND 0xe0 = (t AND 0xe0) OR (i AND 0xe0)"
    by (simp only: bit.conj_disj_distrib2)
  also have "i AND 0xe0 = (i AND 0x1f) AND 0xe0" by (simp add: m)
  also have "\<dots> = 0" by (simp add: and.assoc)
  finally show ?thesis by (simp add: major_def hdr_def m t)
qed

lemma retag_hdr: "t AND 0xe0 = t \<Longrightarrow> retag t (hdr t' i # bs) = hdr t i # bs"
proof -
  assume t: "t AND 0xe0 = t"
  have "((t' AND 0xe0) OR (i AND 0x1f)) AND 0x1f = ((t' AND 0xe0) AND 0x1f) OR ((i AND 0x1f) AND 0x1f)"
    by (simp only: bit.conj_disj_distrib2)
  also have "(t' AND 0xe0) AND 0x1f = 0" by (simp add: and.assoc)
  finally show ?thesis by (simp add: retag_def hdr_def t and.assoc or.commute)
qed

lemma retag_payload_item:
  "t AND 0xe0 = t \<Longrightarrow> retag t (payload_item t' k p) = payload_item t k p"
  by (simp add: payload_item_def retag_hdr)

lemma retag_uint_item: "t AND 0xe0 = t \<Longrightarrow> retag t (uint_item t' n) = uint_item t n"
  by (simp add: uint_item_def retag_payload_item)

lemma is_major_types:
  "type0 AND 0xe0 = type0" "type1 AND 0xe0 = type1" "type2 AND 0xe0 = type2"
  "type3 AND 0xe0 = type3" "type4 AND 0xe0 = type4" "type5 AND 0xe0 = type5"
  "type6 AND 0xe0 = type6" "type7 AND 0xe0 = type7"
  by (simp_all add: cbor_consts)

lemma payload_item_not_Nil: "payload_item t k p \<noteq> []"
  by (simp add: payload_item_def)

lemma length_payload_item: "length (payload_item t k p) = payload_len k"
  by (simp add: payload_item_def payload_len_def PutUint16_def PutUint32_def PutUint64_def)

lemma uint_less_of_unat:
  fixes p :: "'a::len word"
  assumes "unat p < n"
  shows "uint p < int n"
proof -
  have "int (unat p) < int n" using assms by (simp only: of_nat_less_iff)
  then show ?thesis by simp
qed

lemma uint_ucast_of_unat:
  fixes p :: "'a::len word"
  assumes "unat p < 2 ^ LENGTH('b::len)"
  shows "uint (ucast p :: 'b word) = uint p"
  using uint_less_of_unat [OF assms] by (intro uint_ucast_small) simp

lemma decodeLength_payload_item:
  assumes "unat p < payload_bound k" "unat p < 2 ^ 63"
  shows "decodeLength (payload_item t k p @ rest) = Inr (int (unat p), payload_len k)"
proof -
  consider "k = 0" | "k = 1" | "k = 2" | "k = 3" | "4 \<le> k" by linarith
  then show ?thesis
  proof cases
    case 1
    then have p: "unat p < 24" using assms by (simp add: payload_bound_def)
    then have "unat p < 2 ^ LENGTH(8)" by simp
    then have u: "unat (ucast p :: byte) = unat p" by (rule unat_ucast_small)
    have u': "uint (ucast p :: byte) = uint p" using p by (intro uint_ucast_of_unat) simp
    from u p have i: "info (hdr t (ucast p)) = ucast p" by (intro info_hdr) simp
    from u p have lt: "(ucast p :: byte) < 24" by (simp add: word_less_nat_alt)
    from 1 lt u' i show ?thesis
      by (simp add: decodeLength_def payload_item_def payload_len_def index_def bind_e_def
          info24_def)
  next
    case 2
    then have p: "unat p < 2 ^ LENGTH(8)" using assms by (simp add: payload_bound_def)
    then have u: "unat (ucast p :: byte) = unat p" by (rule unat_ucast_small)
    have u': "uint (ucast p :: byte) = uint p" using p by (intro uint_ucast_of_unat) simp
    have "info (hdr t info24) = info24" by (intro info_hdr) (simp add: info24_def)
    with 2 u' show ?thesis
      by (simp add: decodeLength_def payload_item_def payload_len_def index_def bind_e_def
          info24_def)
  next
    case 3
    then have p: "unat p < 2 ^ LENGTH(16)" using assms by (simp add: payload_bound_def)
    then have u: "unat (ucast p :: 16 word) = unat p" by (rule unat_ucast_small)
    have u': "uint (ucast p :: 16 word) = uint p" using p by (intro uint_ucast_of_unat) simp
    have "info (hdr t info25) = info25" by (intro info_hdr) (simp add: info25_def)
    with 3 u' show ?thesis
      by (simp add: decodeLength_def payload_item_def payload_len_def index_def bind_e_def
          slice_from_def Uint16_PutUint16 info24_def info25_def)
  next
    case 4
    then have p: "unat p < 2 ^ LENGTH(32)" using assms by (simp add: payload_bound_def)
    then have u: "unat (ucast p :: 32 word) = unat p" by (rule unat_ucast_small)
    have u': "uint (ucast p :: 32 word) = uint p" using p by (intro uint_ucast_of_unat) simp
    have "info (hdr t info26) = info26" by (intro info_hdr) (simp add: info26_def)
    with 4 u' show ?thesis
      by (simp add: decodeLength_def payload_item_def payload_len_def index_def bind_e_def
          slice_from_def Uint32_PutUint32 info24_def info25_def info26_def)
  next
    case 5
    have "uint p < 2 ^ (LENGTH(64) - 1)" using uint_less_of_unat [OF assms(2)] by simp
    then have s: "sint p = uint p" by (rule sint_of_small)
    have "info (hdr t info27) = info27" by (intro info_hdr) (simp add: info27_def)
    with 5 s show ?thesis
      by (simp add: decodeLength_def payload_item_def payload_len_def index_def bind_e_def
          slice_from_def Uint64_PutUint64 info24_def info25_def info26_def info27_def)
  qed
qed

lemma unat_of_nat64: "n < 2 ^ 64 \<Longrightarrow> unat (of_nat n :: 64 word) = n"
  by (simp add: unat_of_nat)

lemma payload_bound_width_class:
  "n < 2 ^ 64 \<Longrightarrow> n < payload_bound (width_class n)"
  by (simp add: payload_bound_def width_class_def)

lemma decodeLength_uint_item:
  assumes "n < 2 ^ 63"
  shows "decodeLength (uint_item t n @ rest) = Inr (int n, width n)"
proof -
  have n: "n < 2 ^ 64" using assms by simp
  have u: "unat (of_nat n :: 64 word) = n" using n by (rule unat_of_nat64)
  show ?thesis
    unfolding uint_item_def
    using decodeLength_payload_item [of "of_nat n" "width_class n" t rest]
      payload_bound_width_class [OF n] assms
    by (simp add: u payload_len_width_class)
qed

section \<open>From the text form to the CBOR form and back\<close>

lemma escape_Nil [simp]: "escape [] = []"
  by (simp add: escape_def)

lemma escape_Cons: "escape (c # cs) = escape_char c @ escape cs"
  by (simp add: escape_def)

lemma text_pointer_Nil [simp]: "text_pointer [] = []"
  by (simp add: text_pointer_def)

lemma text_pointer_Cons: "text_pointer (s # segs) = 0x2f # escape s @ text_pointer segs"
  by (simp add: text_pointer_def)

lemma FromJsonPointer_loop_segment:
  "length part + length s \<le> maxPartSize \<Longrightarrow>
   FromJsonPointer_loop (pre @ escape s @ rest) (length pre) part out =
   FromJsonPointer_loop (pre @ escape s @ rest) (length pre + length (escape s)) (part @ s) out"
proof (induction s arbitrary: pre part)
  case Nil
  then show ?case by simp
next
  case (Cons c cs)
  have len: "length part < maxPartSize" "length (part @ [c]) + length cs \<le> maxPartSize"
    using Cons.prems by simp_all
  let ?path = "pre @ escape (c # cs) @ rest"
  have step: "FromJsonPointer_loop ?path (length pre) part out =
        FromJsonPointer_loop ?path (length pre + length (escape_char c)) (part @ [c]) out"
    using len(1)
    by (subst FromJsonPointer_loop.simps)
       (simp add: escape_Cons escape_char_def nth_append)
  have "FromJsonPointer_loop ?path (length (pre @ escape_char c)) (part @ [c]) out =
        FromJsonPointer_loop ?path (length (pre @ escape_char c) + length (escape cs))
          ((part @ [c]) @ cs) out"
    using Cons.IH [OF len(2), of "pre @ escape_char c"] by (simp add: escape_Cons)
  with step show ?case by (simp add: escape_Cons add.assoc)
qed

lemma FromJsonPointer_loop_segments:
  assumes "segs \<noteq> []" "\<forall>s \<in> set (butlast segs). s \<noteq> []"
    "\<forall>s \<in> set segs. length s \<le> maxPartSize"
  shows "FromJsonPointer_loop (pre @ text_pointer segs) (length pre) part out =
         Some (Inr (last segs,
           out @ (if part = [] then [] else cbor_segment part)
               @ concat (map cbor_segment (butlast segs))))"
  using assms
proof (induction segs arbitrary: pre part out)
  case Nil
  then show ?case by simp
next
  case (Cons s segs)
  let ?path = "pre @ text_pointer (s # segs)"
  let ?out = "out @ (if part = [] then [] else cbor_segment part)"
  have s_len: "length [] + length s \<le> maxPartSize" using Cons.prems(3) by simp
  have slash: "FromJsonPointer_loop ?path (length pre) part out =
               FromJsonPointer_loop ?path (length pre + 1) [] ?out"
    by (subst FromJsonPointer_loop.simps)
       (simp add: text_pointer_Cons nth_append cbor_segment_def)
  have seg: "FromJsonPointer_loop ?path (length (pre @ [0x2f])) [] ?out =
             FromJsonPointer_loop ?path (length (pre @ [0x2f]) + length (escape s)) ([] @ s) ?out"
    using FromJsonPointer_loop_segment [OF s_len, of "pre @ [0x2f]" "text_pointer segs" ?out]
    by (simp add: text_pointer_Cons)
  show ?case
  proof (cases "segs = []")
    case True
    have "FromJsonPointer_loop ?path (length ?path) s ?out = Some (Inr (s, ?out))"
      by (subst FromJsonPointer_loop.simps) simp
    with slash seg True show ?thesis by (simp add: text_pointer_Cons)
  next
    case False
    then have s_ne: "s \<noteq> []" using Cons.prems(2) by simp
    have p2: "\<forall>s \<in> set (butlast segs). s \<noteq> []" using Cons.prems(2) False by simp
    have p3: "\<forall>s \<in> set segs. length s \<le> maxPartSize" using Cons.prems(3) by simp
    have "FromJsonPointer_loop ((pre @ 0x2f # escape s) @ text_pointer segs)
            (length (pre @ 0x2f # escape s)) s ?out =
          Some (Inr (last segs, ?out @ (if s = [] then [] else cbor_segment s)
             @ concat (map cbor_segment (butlast segs))))"
      by (rule Cons.IH [OF False p2 p3])
    with slash seg False s_ne show ?thesis by (simp add: text_pointer_Cons)
  qed
qed

lemma text_pointer_last_slash:
  assumes "segs \<noteq> []" "last segs = []"
  shows "text_pointer segs \<noteq> [] \<and> text_pointer segs ! (length (text_pointer segs) - 1) = 0x2f"
proof -
  have "segs = butlast segs @ [[]]" using assms append_butlast_last_id [of segs] by simp
  then have "text_pointer segs = text_pointer (butlast segs @ [[]])" by simp
  also have "\<dots> = text_pointer (butlast segs) @ [0x2f]"
    by (simp add: text_pointer_def)
  finally show ?thesis by simp
qed

lemma FromJsonPointer_text_pointer:
  assumes "\<forall>s \<in> set (butlast segs). s \<noteq> []" "\<forall>s \<in> set segs. length s \<le> maxPartSize"
  shows "FromJsonPointer (text_pointer segs) = Some (Inr (cbor_pointer segs))"
proof (cases "segs = []")
  case True
  then show ?thesis
    by (simp add: FromJsonPointer_def FromJsonPointer_loop.simps [of "[]"] bind_r_def cbor_pointer_def)
next
  case False
  have hd: "text_pointer segs \<noteq> []" "text_pointer segs ! 0 = 0x2f"
    using False by (cases segs; simp add: text_pointer_Cons)+
  have loop: "FromJsonPointer_loop (text_pointer segs) 0 [] encodeTextStart =
        Some (Inr (last segs, encodeTextStart @ concat (map cbor_segment (butlast segs))))"
    using FromJsonPointer_loop_segments [OF False assms, of "[]" "[]" encodeTextStart] by simp
  have fin: "last segs \<noteq> [] \<or> text_pointer segs ! (length (text_pointer segs) - 1) = 0x2f"
    using text_pointer_last_slash [OF False] by blast
  have cat: "concat (map cbor_segment (butlast segs)) @ cbor_segment (last segs)
             = concat (map cbor_segment segs)"
  proof -
    have "concat (map cbor_segment (butlast segs @ [last segs])) = concat (map cbor_segment segs)"
      using False by simp
    then show ?thesis by simp
  qed
  show ?thesis
    using hd fin cat
    by (auto simp add: FromJsonPointer_def loop bind_r_def cbor_pointer_def cbor_segment_def)
qed

lemma ToJsonPointer_segment_escape:
  "ToJsonPointer_segment (pre @ s @ rest) (length pre) (int (length pre + length s)) out =
   Inr (length pre + length s, out @ escape s)"
proof (induction s arbitrary: pre out)
  case Nil
  show ?case by (subst ToJsonPointer_segment.simps) simp
next
  case (Cons c cs)
  have "ToJsonPointer_segment (pre @ (c # cs) @ rest) (length pre)
          (int (length pre + length (c # cs))) out =
        ToJsonPointer_segment ((pre @ [c]) @ cs @ rest) (length (pre @ [c]))
          (int (length (pre @ [c]) + length cs)) (out @ escape_char c)"
    by (subst ToJsonPointer_segment.simps) (simp add: index_def nth_append escape_char_def)
  also have "\<dots> = Inr (length (pre @ [c]) + length cs, (out @ escape_char c) @ escape cs)"
    by (rule Cons.IH)
  finally show ?case by (simp add: escape_Cons)
qed

lemma encodeTag_tagJsonString: "encodeTag (ucast tagJsonString) = [hdr type6 info24, tagJsonString]"
  by (simp add: encodeTag_def encodeUint64_def encodeUint32_def encodeUint16_def encodeUint8_def
      retag_def hdr_def cbor_consts)

lemma retag_append: "xs \<noteq> [] \<Longrightarrow> retag t (xs @ ys) = retag t xs @ ys"
  by (cases xs) (simp_all add: retag_def)

lemma encodeText_uint_item:
  assumes "length s < 2 ^ 64"
  shows "encodeText s = uint_item type3 (length s) @ s"
proof -
  have "unat (of_nat (length s) :: 64 word) = length s" using assms by (rule unat_of_nat64)
  then have "encodeBytes s = uint_item type2 (length s) @ s"
    by (simp add: encodeBytes_def encodeUint64_uint_item retag_uint_item is_major_types)
  moreover have "uint_item type2 (length s) \<noteq> []"
    by (simp add: uint_item_def payload_item_not_Nil)
  ultimately show ?thesis
    by (simp add: encodeText_def retag_append retag_uint_item is_major_types)
qed

lemma length_uint_item: "length (uint_item t n) = width n"
  by (simp add: uint_item_def length_payload_item payload_len_width_class)

lemma ToJsonPointer_loop_segments:
  assumes "\<forall>s \<in> set segs. length s < 2 ^ 63"
  shows "ToJsonPointer_loop (pre @ concat (map cbor_segment segs) @ encodeBreakStop)
           (length pre) out = Some (Inr (out @ text_pointer segs))"
  using assms
proof (induction segs arbitrary: pre out)
  case Nil
  show ?case
    by (subst ToJsonPointer_loop.simps)
       (simp add: index_def encodeBreakStop_def hdr_def cbor_consts)
next
  case (Cons s segs)
  let ?H = "uint_item type3 (length s)"
  let ?tail = "concat (map cbor_segment segs) @ encodeBreakStop"
  let ?bin = "pre @ concat (map cbor_segment (s # segs)) @ encodeBreakStop"
  let ?pre' = "pre @ [hdr type6 info24, tagJsonString] @ ?H"
  have s63: "length s < 2 ^ 63" and s64: "length s < 2 ^ 64" using Cons.prems by simp_all
  have bin: "?bin = pre @ [hdr type6 info24, tagJsonString] @ ?H @ s @ ?tail"
    by (simp add: cbor_segment_def encodeTag_tagJsonString encodeText_uint_item [OF s64])
  have dl: "decodeLength (?H @ s @ ?tail) = Inr (int (length s), width (length s))"
    by (rule decodeLength_uint_item [OF s63])
  have seg: "ToJsonPointer_segment (?pre' @ s @ ?tail) (length ?pre')
               (int (length ?pre' + length s)) (out @ [0x2f])
             = Inr (length ?pre' + length s, (out @ [0x2f]) @ escape s)"
    by (rule ToJsonPointer_segment_escape)
  have ih: "ToJsonPointer_loop ((?pre' @ s) @ ?tail) (length (?pre' @ s)) (out @ 0x2f # escape s)
            = Some (Inr ((out @ 0x2f # escape s) @ text_pointer segs))"
    using Cons.prems by (intro Cons.IH) simp
  have nxt: "index ((?pre' @ s) @ ?tail) (length (?pre' @ s)) = Inr (hd ?tail)"
    by (cases ?tail) (simp_all add: index_def nth_append encodeBreakStop_def)
  have ne: "hdr type6 info24 \<noteq> hdr type7 itemBreak"
    by (simp add: hdr_def cbor_consts)
  have brk: "hd ?tail = hdr type7 itemBreak \<Longrightarrow> segs = []"
    using ne by (cases segs) (simp_all add: cbor_segment_def encodeTag_tagJsonString)
  have seg': "ToJsonPointer_segment (pre @ [hdr type6 info24, tagJsonString] @ ?H @ s @ ?tail)
               (length pre + 2 + width (length s))
               (int (length s) + int (length pre + 2) + int (width (length s))) (out @ [0x2f])
             = Inr (length ?pre' + length s, (out @ [0x2f]) @ escape s)"
    using seg by (simp add: length_uint_item add.commute add.left_commute)
  have i0: "index (pre @ [hdr type6 info24, tagJsonString] @ ?H @ s @ ?tail) (length pre)
            = Inr (hdr type6 info24)"
    by (simp add: index_def nth_append)
  have i1: "index (pre @ [hdr type6 info24, tagJsonString] @ ?H @ s @ ?tail) (length pre + 1)
            = Inr tagJsonString"
    by (simp add: index_def nth_append)
  have sl: "slice_from (pre @ [hdr type6 info24, tagJsonString] @ ?H @ s @ ?tail) (length pre + 2)
            = Inr (?H @ s @ ?tail)"
    by (simp add: slice_from_def)
  have nxt': "index (pre @ [hdr type6 info24, tagJsonString] @ ?H @ s @ ?tail)
               (length ?pre' + length s) = Inr (hd ?tail)"
    using nxt by (simp add: add.assoc)
  have "ToJsonPointer_loop ?bin (length pre) out =
        (if hd ?tail = hdr type7 itemBreak then Some (Inr (out @ 0x2f # escape s))
         else ToJsonPointer_loop ((?pre' @ s) @ ?tail) (length (?pre' @ s)) (out @ 0x2f # escape s))"
    unfolding bin
    apply (subst ToJsonPointer_loop.simps)
    apply (simp only: i0 i1 sl sum.case bind_e_def if_True simp_thms dl prod.case seg' nxt')
    apply (simp add: add.assoc)
    done
  with ih brk show ?case
    by (auto simp add: text_pointer_Cons)
qed

lemma ToJsonPointer_cbor_pointer:
  assumes "\<forall>s \<in> set segs. length s < 2 ^ 63"
  shows "ToJsonPointer (cbor_pointer segs) = Some (Inr (text_pointer segs))"
  using ToJsonPointer_loop_segments [OF assms, of "encodeTextStart" "[]"]
  by (simp add: ToJsonPointer_def cbor_pointer_def encodeTextStart_def index_def
      IsIndefiniteText_def)

lemma escape_plain: "\<forall>c \<in> set s. c \<noteq> 0x7e \<and> c \<noteq> 0x2f \<Longrightarrow> escape s = s"
  by (induction s) (simp_all add: escape_Cons escape_char_def)

text \<open>A segment of \<^verbatim>\<open>maxPartSize\<close> + 1 bytes does not fit the array \<^verbatim>\<open>part\<close>.\<close>

lemma FromJsonPointer_long_segment:
  "FromJsonPointer (0x2f # replicate (Suc maxPartSize) 0x61) = Some (Inl RuntimeError)"
proof -
  let ?s = "replicate maxPartSize (0x61 :: byte)"
  let ?path = "[0x2f] @ escape ?s @ [0x61]"
  have e: "escape ?s = ?s" by (rule escape_plain) simp
  have p: "0x2f # replicate (Suc maxPartSize) 0x61 = ?path"
    by (simp add: e replicate_append_same)
  have slash: "FromJsonPointer_loop ?path 0 [] out = FromJsonPointer_loop ?path (length [0x2f :: byte]) [] out" for out
    by (subst FromJsonPointer_loop.simps) simp
  have seg: "FromJsonPointer_loop ?path (length [0x2f :: byte]) [] out =
             FromJsonPointer_loop ?path (length [0x2f :: byte] + length (escape ?s)) ([] @ ?s) out" for out
    by (rule FromJsonPointer_loop_segment) simp
  have full: "FromJsonPointer_loop ?path (length [0x2f :: byte] + length (escape ?s)) ([] @ ?s) out
              = Some (Inl RuntimeError)" for out
    by (subst FromJsonPointer_loop.simps) (simp add: e nth_append)
  have l: "FromJsonPointer_loop ?path 0 [] out = Some (Inl RuntimeError)" for out
    by (simp only: slash seg full)
  have h: "length ?path > 0 \<and> ?path ! 0 = 0x2f" by simp
  show ?thesis
    unfolding p FromJsonPointer_def l using h by (simp add: bind_r_def)
qed

text \<open>
  Claim C7, amended. For every text pointer of valid syntax whose tokens are not empty,
  except possibly the last, and stand for segments of at most \<^verbatim>\<open>maxPartSize\<close> bytes,
  \<^verbatim>\<open>FromJsonPointer\<close> returns the CBOR form of the pointer and \<^verbatim>\<open>ToJsonPointer\<close> takes that
  back to the text pointer.
\<close>

theorem pointer_roundtrip:
  assumes "\<forall>s \<in> set (butlast segs). s \<noteq> []" "\<forall>s \<in> set segs. length s \<le> maxPartSize"
  shows "FromJsonPointer (text_pointer segs) = Some (Inr (cbor_pointer segs))
       \<and> bind_r (FromJsonPointer (text_pointer segs)) ToJsonPointer
           = Some (Inr (text_pointer segs))"
proof -
  have "\<forall>s \<in> set segs. length s < 2 ^ 63"
    using assms(2) by (auto simp add: maxPartSize_def)
  then have "ToJsonPointer (cbor_pointer segs) = Some (Inr (text_pointer segs))"
    by (rule ToJsonPointer_cbor_pointer)
  with FromJsonPointer_text_pointer [OF assms] show ?thesis
    by (simp add: bind_r_def)
qed

theorem pointer_roundtrip_witness:
  "text_pointer [[0x61], [0x7e, 0x2f], []] = [0x2f, 0x61, 0x2f, 0x7e, 0x30, 0x7e, 0x31, 0x2f]
   \<and> bind_r (FromJsonPointer [0x2f, 0x61, 0x2f, 0x7e, 0x30, 0x7e, 0x31, 0x2f]) ToJsonPointer
       = Some (Inr [0x2f, 0x61, 0x2f, 0x7e, 0x30, 0x7e, 0x31, 0x2f])"
proof -
  have a: "\<forall>s \<in> set (butlast [[0x61], [0x7e, 0x2f], []]). s \<noteq> ([] :: byte list)" by simp
  have b: "\<forall>s \<in> set [[0x61], [0x7e, 0x2f], [] :: byte list]. length s \<le> maxPartSize"
    by (simp add: maxPartSize_def)
  have t: "text_pointer [[0x61], [0x7e, 0x2f], []] = [0x2f, 0x61, 0x2f, 0x7e, 0x30, 0x7e, 0x31, 0x2f]"
    by (simp add: text_pointer_def escape_def escape_char_def)
  have r: "bind_r (FromJsonPointer (text_pointer [[0x61], [0x7e, 0x2f], []])) ToJsonPointer
       = Some (Inr (text_pointer [[0x61], [0x7e, 0x2f], []]))"
    using pointer_roundtrip [OF a b] by (rule conjunct2)
  show ?thesis
    using t r [unfolded t] by (intro conjI)
qed

text \<open>
  The claim as it stands fails on \<open>//a\<close>, which comes back as \<open>/a\<close>, and on the token of
  \<^verbatim>\<open>maxPartSize\<close> + 1 letters \<open>a\<close>, a segment of as many bytes, where \<^verbatim>\<open>FromJsonPointer\<close> panics on
  the store past the end of \<^verbatim>\<open>part\<close>.
\<close>

theorem pointer_roundtrip_counterexample:
  "text_pointer [[], [0x61]] = [0x2f, 0x2f, 0x61]
   \<and> bind_r (FromJsonPointer [0x2f, 0x2f, 0x61]) ToJsonPointer = Some (Inr [0x2f, 0x61])
   \<and> text_pointer [replicate (Suc maxPartSize) 0x61] = 0x2f # replicate (Suc maxPartSize) 0x61
   \<and> FromJsonPointer (0x2f # replicate (Suc maxPartSize) 0x61) = Some (Inl RuntimeError)"
proof -
  have a: "text_pointer [[], [0x61]] = [0x2f, 0x2f, 0x61]"
    by (simp add: text_pointer_def escape_def escape_char_def)
  have b: "bind_r (FromJsonPointer [0x2f, 0x2f, 0x61]) ToJsonPointer = Some (Inr [0x2f, 0x61])"
    by code_simp
  have c: "text_pointer [replicate (Suc maxPartSize) 0x61] = 0x2f # replicate (Suc maxPartSize) 0x61"
    using escape_plain [of "replicate (Suc maxPartSize) 0x61"]
    by (simp add: text_pointer_def)
  show ?thesis using a b c FromJsonPointer_long_segment by simp
qed

section \<open>The round trip of \<^verbatim>\<open>encode\<close> and \<^verbatim>\<open>decode\<close>\<close>

subsection \<open>Integers with a payload\<close>

lemma ucast_ucast_id:
  fixes p :: "'a::len word"
  assumes "unat p < 2 ^ LENGTH('b::len)"
  shows "(ucast (ucast p :: 'b word) :: 'a word) = p"
proof -
  have a: "unat p < 2 ^ LENGTH('a)" by (rule unsigned_less)
  have "unat (ucast p :: 'b word) = unat p" using assms by (rule unat_ucast_small)
  moreover have "unat (ucast (ucast p :: 'b word) :: 'a word) = unat (ucast p :: 'b word)"
    using a calculation by (intro unat_ucast_small) simp
  ultimately have "unat (ucast (ucast p :: 'b word) :: 'a word) = unat p" by simp
  then show ?thesis by (simp only: word_unat_eq_iff)
qed

lemma ucast_succ:
  fixes p :: "'a::len word"
  assumes "Suc (unat p) < 2 ^ LENGTH('b::len)"
  shows "(ucast ((ucast p :: 'b word) + 1) :: 'a word) = p + 1"
proof -
  have a: "unat p < 2 ^ LENGTH('a)" by (rule unsigned_less)
  have b: "unat p < 2 ^ LENGTH('b)" using assms by simp
  have x: "unat (ucast p :: 'b word) = unat p" using b by (rule unat_ucast_small)
  have x1: "unat ((ucast p :: 'b word) + 1) = Suc (unat p)"
    using assms x by (simp add: unat_word_ariths)
  have "unat (p + 1) = Suc (unat p) mod 2 ^ LENGTH('a)"
    by (simp add: unat_word_ariths)
  have "unat (ucast ((ucast p :: 'b word) + 1) :: 'a word) = Suc (unat p) mod 2 ^ LENGTH('a)"
    by (simp add: unsigned_ucast_eq take_bit_nat_def x1 del: unsigned_1 ) 
  then have "unat (ucast ((ucast p :: 'b word) + 1) :: 'a word) = unat (p + 1)"
    by (simp add: unat_word_ariths)
  then show ?thesis by (simp only: word_unat_eq_iff)
qed


lemma decode_simple:
  assumes "cborDecoders dt b = Some (simple_decoder f)" "f (b # rest) = Inr (item, n)"
    "\<not> is_Indefinite item"
  shows "decode dt (Suc fuel) (b # rest) = Some (Inr (item, n))"
  using assms by (simp add: index_def simple_decoder_def bind_d_def)

lemma decode_payload_type0:
  assumes "unat p < payload_bound k"
  shows "decode dt (Suc fuel) (payload_item type0 k p @ rest)
         = Some (Inr (VUint64 p, payload_len k))"
proof -
  consider "k = 0" | "k = 1" | "k = 2" | "k = 3" | "4 \<le> k" by linarith
  then show ?thesis
  proof cases
    case 1
    then have p: "unat p < 24" using assms by (simp add: payload_bound_def)
    then have u: "unat (ucast p :: byte) = unat p" by (intro unat_ucast_small) simp
    have id: "(ucast (ucast p :: byte) :: 64 word) = p" using p by (intro ucast_ucast_id) simp
    have i: "info (hdr type0 (ucast p)) = ucast p" using u p by (intro info_hdr) simp
    have t: "cborDecoders dt (hdr type0 (ucast p)) = Some (simple_decoder decodeType0SmallInt)"
      using u p by (intro cborDecoders_type0_small) simp
    have "decode dt (Suc fuel) (hdr type0 (ucast p) # rest) = Some (Inr (VUint64 p, 1))"
      by (rule decode_simple [OF t])
         (simp_all add: decodeType0SmallInt_def index_def bind_e_def i id is_Indefinite_def)
    with 1 show ?thesis by (simp add: payload_item_def payload_len_def)
  next
    case 2
    then have p: "unat p < 2 ^ LENGTH(8)" using assms by (simp add: payload_bound_def)
    have id: "(ucast (ucast p :: byte) :: 64 word) = p" using p by (rule ucast_ucast_id)
    have "decode dt (Suc fuel) (hdr type0 info24 # ucast p # rest) = Some (Inr (VUint64 p, 2))"
      by (rule decode_simple [OF cborDecoders_entries(1)])
         (simp_all add: decodeType0Info24_def index_def bind_e_def id is_Indefinite_def)
    with 2 show ?thesis by (simp add: payload_item_def payload_len_def)
  next
    case 3
    then have p: "unat p < 2 ^ LENGTH(16)" using assms by (simp add: payload_bound_def)
    have id: "(ucast (ucast p :: 16 word) :: 64 word) = p" using p by (rule ucast_ucast_id)
    have "decode dt (Suc fuel) (hdr type0 info25 # PutUint16 (ucast p) @ rest)
          = Some (Inr (VUint64 p, 3))"
      by (rule decode_simple [OF cborDecoders_entries(2)])
         (simp_all add: decodeType0Info25_def slice_from_def bind_e_def Uint16_PutUint16 id
            is_Indefinite_def)
    with 3 show ?thesis by (simp add: payload_item_def payload_len_def)
  next
    case 4
    then have p: "unat p < 2 ^ LENGTH(32)" using assms by (simp add: payload_bound_def)
    have id: "(ucast (ucast p :: 32 word) :: 64 word) = p" using p by (rule ucast_ucast_id)
    have "decode dt (Suc fuel) (hdr type0 info26 # PutUint32 (ucast p) @ rest)
          = Some (Inr (VUint64 p, 5))"
      by (rule decode_simple [OF cborDecoders_entries(3)])
         (simp_all add: decodeType0Info26_def slice_from_def bind_e_def Uint32_PutUint32 id
            is_Indefinite_def)
    with 4 show ?thesis by (simp add: payload_item_def payload_len_def)
  next
    case 5
    have "decode dt (Suc fuel) (hdr type0 info27 # PutUint64 p @ rest)
          = Some (Inr (VUint64 p, 9))"
      by (rule decode_simple [OF cborDecoders_entries(4)])
         (simp_all add: decodeType0Info27_def slice_from_def bind_e_def Uint64_PutUint64
            is_Indefinite_def)
    with 5 show ?thesis by (simp add: payload_item_def payload_len_def)
  qed
qed

lemma decode_payload_type1:
  assumes "unat p < neg_bound k"
  shows "decode dt (Suc fuel) (payload_item type1 k p @ rest)
         = Some (Inr (VInt64 (- p - 1), payload_len k))"
proof -
  consider "k = 0" | "k = 1" | "k = 2" | "k = 3" | "4 \<le> k" by linarith
  then show ?thesis
  proof cases
    case 1
    then have p: "unat p < 24" using assms by (simp add: neg_bound_def)
    then have u: "unat (ucast p :: byte) = unat p" by (intro unat_ucast_small) simp
    have id: "(ucast ((ucast p :: byte) + 1) :: 64 word) = p + 1"
      using p by (intro ucast_succ) simp
    have i: "info (hdr type1 (ucast p)) = ucast p" using u p by (intro info_hdr) simp
    have t: "cborDecoders dt (hdr type1 (ucast p)) = Some (simple_decoder decodeType1SmallInt)"
      using u p by (intro cborDecoders_type1_small) simp
    have "decode dt (Suc fuel) (hdr type1 (ucast p) # rest) = Some (Inr (VInt64 (- p - 1), 1))"
      by (rule decode_simple [OF t])
         (simp_all add: decodeType1SmallInt_def index_def bind_e_def i id is_Indefinite_def)
    with 1 show ?thesis by (simp add: payload_item_def payload_len_def)
  next
    case 2
    then have p: "Suc (unat p) < 2 ^ LENGTH(8)" using assms by (simp add: neg_bound_def)
    have id: "(ucast ((ucast p :: byte) + 1) :: 64 word) = p + 1" using p by (rule ucast_succ)
    have "decode dt (Suc fuel) (hdr type1 info24 # ucast p # rest)
          = Some (Inr (VInt64 (- p - 1), 2))"
      by (rule decode_simple [OF cborDecoders_entries(5)])
         (simp_all add: decodeType1Info24_def index_def bind_e_def id is_Indefinite_def)
    with 2 show ?thesis by (simp add: payload_item_def payload_len_def)
  next
    case 3
    then have p: "Suc (unat p) < 2 ^ LENGTH(16)" using assms by (simp add: neg_bound_def)
    have id: "(ucast ((ucast p :: 16 word) + 1) :: 64 word) = p + 1" using p by (rule ucast_succ)
    have "decode dt (Suc fuel) (hdr type1 info25 # PutUint16 (ucast p) @ rest)
          = Some (Inr (VInt64 (- p - 1), 3))"
      by (rule decode_simple [OF cborDecoders_entries(6)])
         (simp_all add: decodeType1Info25_def slice_from_def bind_e_def Uint16_PutUint16 id
            is_Indefinite_def)
    with 3 show ?thesis by (simp add: payload_item_def payload_len_def)
  next
    case 4
    then have p: "Suc (unat p) < 2 ^ LENGTH(32)" using assms by (simp add: neg_bound_def)
    have id: "(ucast ((ucast p :: 32 word) + 1) :: 64 word) = p + 1" using p by (rule ucast_succ)
    have "decode dt (Suc fuel) (hdr type1 info26 # PutUint32 (ucast p) @ rest)
          = Some (Inr (VInt64 (- p - 1), 5))"
      by (rule decode_simple [OF cborDecoders_entries(7)])
         (simp_all add: decodeType1Info26_def slice_from_def bind_e_def Uint32_PutUint32 id
            is_Indefinite_def)
    with 4 show ?thesis by (simp add: payload_item_def payload_len_def)
  next
    case 5
    then have "unat p < 2 ^ 63" using assms by (simp add: neg_bound_def)
    then have le: "\<not> p > 9223372036854775807" by (simp add: word_less_nat_alt)
    have "decode dt (Suc fuel) (hdr type1 info27 # PutUint64 p @ rest)
          = Some (Inr (VInt64 (- p - 1), 9))"
      by (rule decode_simple [OF cborDecoders_entries(8)])
         (simp_all add: decodeType1Info27_def slice_from_def bind_e_def Uint64_PutUint64 le
            is_Indefinite_def)
    with 5 show ?thesis by (simp add: payload_item_def payload_len_def)
  qed
qed

subsection \<open>Negative integers\<close>

lemma ucast_of_int_down:
  assumes "LENGTH('b::len) \<le> LENGTH('a::len)"
  shows "(ucast (word_of_int k :: 'a word) :: 'b word) = word_of_int k"
  using assms by (intro bit_word_eqI) (auto simp add: bit_simps)

lemma word_of_int_sint_id: "word_of_int (sint w) = (w :: 'a::len word)"
proof -
  have "scast w = (word_of_int (sint w) :: 'a word)" by (rule scast_eq)
  then show ?thesis by simp
qed

lemma neg_succ_of_int: "- (m + 1) = (word_of_int (- sint m - 1) :: 'a::len word)"
proof -
  have "(word_of_int (- sint m - 1) :: 'a word) = - word_of_int (sint m) - 1"
    by (simp only: of_int_diff of_int_minus of_int_1)
  then show ?thesis by (simp only: word_of_int_sint_id) simp
qed

text \<open>The payload of a negative value, narrowed to the width of the item.\<close>

lemma ucast_neg_payload:
  fixes m :: "'a::len word"
  assumes "LENGTH('b::len) \<le> LENGTH('a)" "LENGTH('b) \<le> 64"
  shows "(ucast (word_of_int (- sint m - 1) :: 64 word) :: 'b word) = ucast (- (m + 1))"
proof -
  have "(ucast (word_of_int (- sint m - 1) :: 64 word) :: 'b word) = word_of_int (- sint m - 1)"
    using assms(2) by (intro ucast_of_int_down) simp
  moreover have "(ucast (- (m + 1)) :: 'b word) = word_of_int (- sint m - 1)"
    by (simp only: neg_succ_of_int [of m]) (rule ucast_of_int_down [OF assms(1)])
  ultimately show ?thesis by (simp only:)
qed

lemma sint_ucast_down:
  fixes m :: "'a::len word"
  assumes "LENGTH('b::len) \<le> LENGTH('a)" "- (2 ^ (LENGTH('b) - 1)) \<le> sint m"
    "sint m < 2 ^ (LENGTH('b) - 1)"
  shows "sint (ucast m :: 'b word) = sint m"
proof -
  have "(ucast m :: 'b word) = ucast (word_of_int (sint m) :: 'a word)"
    by (simp only: word_of_int_sint_id)
  also have "\<dots> = word_of_int (sint m)" using assms(1) by (rule ucast_of_int_down)
  finally have "sint (ucast m :: 'b word) = signed_take_bit (LENGTH('b) - 1) (sint m)"
    by (simp only: sint_sbintrunc')
  also have "\<dots> = sint m"
    using assms(2,3) by (intro signed_take_bit_int_eq_self) simp_all
  finally show ?thesis .
qed

lemma unat_neg_payload:
  assumes "s < 0" "- (2 ^ 63) \<le> s"
  shows "unat (word_of_int (- s - 1) :: 64 word) = nat (- s - 1)"
proof -
  have "uint (word_of_int (- s - 1) :: 64 word) = take_bit 64 (- s - 1)"
    by (simp only: uint_word_of_int_eq) simp
  also have "\<dots> = - s - 1" using assms by (intro take_bit_int_eq_self) simp_all
  finally show ?thesis by (simp only: unat_eq_nat_uint)
qed


lemma encodeInt8_neg:
  fixes m :: "8 word"
  assumes "sint m < 0"
  shows "\<exists>k. encodeInt8 m = payload_item type1 k (word_of_int (- sint m - 1))
           \<and> nat (- sint m - 1) < neg_bound k"
proof -
  define p :: "64 word" where "p = word_of_int (- sint m - 1)"
  have lo: "- 128 \<le> sint m" using sint_ge [of m] by simp
  have e: "(ucast p :: byte) = - (m + 1)"
    unfolding p_def using ucast_neg_payload [of m, where 'b=8] by simp
  have "\<exists>k. encodeInt8 m = payload_item type1 k p \<and> nat (- sint m - 1) < neg_bound k"
  proof (cases "sint m < - 23")
    case True
    with assms lo have "encodeInt8 m = payload_item type1 1 p
        \<and> nat (- sint m - 1) < neg_bound 1"
      by (simp add: encodeInt8_def MaxSmallInt_def word_sless_alt payload_item_def e neg_bound_def)
    then show ?thesis by blast
  next
    case False
    with assms lo have "encodeInt8 m = payload_item type1 0 p
        \<and> nat (- sint m - 1) < neg_bound 0"
      by (simp add: encodeInt8_def MaxSmallInt_def word_sless_alt payload_item_def e neg_bound_def)
    then show ?thesis by blast
  qed
  then show ?thesis unfolding p_def .
qed

lemma encodeInt16_neg:
  fixes m :: "16 word"
  assumes "sint m < 0"
  shows "\<exists>k. encodeInt16 m = payload_item type1 k (word_of_int (- sint m - 1))
           \<and> nat (- sint m - 1) < neg_bound k"
proof -
  define p :: "64 word" where "p = word_of_int (- sint m - 1)"
  have lo: "- 32768 \<le> sint m" using sint_ge [of m] by simp
  have e8: "(ucast p :: byte) = ucast (- (m + 1))"
    unfolding p_def by (rule ucast_neg_payload) simp_all
  have e16: "(ucast p :: 16 word) = - (m + 1)"
    unfolding p_def using ucast_neg_payload [of m, where 'b=16] by simp
  have "\<exists>k. encodeInt16 m = payload_item type1 k p \<and> nat (- sint m - 1) < neg_bound k"
  proof (cases "sint m < - 128")
    case True
    show ?thesis
    proof (cases "- 256 < sint m")
      case True
      with \<open>sint m < - 128\<close> have "encodeInt16 m = payload_item type1 1 p
          \<and> nat (- sint m - 1) < neg_bound 1"
        by (simp add: encodeInt16_def word_sless_alt payload_item_def e8 neg_bound_def)
      then show ?thesis by blast
    next
      case False
      with \<open>sint m < - 128\<close> lo have "encodeInt16 m = payload_item type1 2 p
          \<and> nat (- sint m - 1) < neg_bound 2"
        by (simp add: encodeInt16_def word_sless_alt payload_item_def e16 neg_bound_def)
      then show ?thesis by blast
    qed
  next
    case False
    then have s8: "sint (ucast m :: 8 word) = sint m"
      using assms by (intro sint_ucast_down) simp_all
    from False assms have "encodeInt16 m = encodeInt8 (ucast m)"
      by (simp add: encodeInt16_def word_sless_alt)
    with encodeInt8_neg [of "ucast m"] assms s8 show ?thesis
      unfolding p_def by simp
  qed
  then show ?thesis unfolding p_def .
qed

lemma encodeInt32_neg:
  fixes m :: "32 word"
  assumes "sint m < 0"
  shows "\<exists>k. encodeInt32 m = payload_item type1 k (word_of_int (- sint m - 1))
           \<and> nat (- sint m - 1) < neg_bound k"
proof -
  define p :: "64 word" where "p = word_of_int (- sint m - 1)"
  have lo: "- 2147483648 \<le> sint m" using sint_ge [of m] by simp
  have e16: "(ucast p :: 16 word) = ucast (- (m + 1))"
    unfolding p_def by (rule ucast_neg_payload) simp_all
  have e32: "(ucast p :: 32 word) = - (m + 1)"
    unfolding p_def using ucast_neg_payload [of m, where 'b=32] by simp
  have "\<exists>k. encodeInt32 m = payload_item type1 k p \<and> nat (- sint m - 1) < neg_bound k"
  proof (cases "sint m < - 32768")
    case True
    show ?thesis
    proof (cases "- 65536 < sint m")
      case True
      with \<open>sint m < - 32768\<close> have "encodeInt32 m = payload_item type1 2 p
          \<and> nat (- sint m - 1) < neg_bound 2"
        by (simp add: encodeInt32_def word_sless_alt payload_item_def e16 neg_bound_def)
      then show ?thesis by blast
    next
      case False
      with \<open>sint m < - 32768\<close> lo have "encodeInt32 m = payload_item type1 3 p
          \<and> nat (- sint m - 1) < neg_bound 3"
        by (simp add: encodeInt32_def word_sless_alt payload_item_def e32 neg_bound_def)
      then show ?thesis by blast
    qed
  next
    case False
    then have s16: "sint (ucast m :: 16 word) = sint m"
      using assms by (intro sint_ucast_down) simp_all
    from False assms have "encodeInt32 m = encodeInt16 (ucast m)"
      by (simp add: encodeInt32_def word_sless_alt)
    with encodeInt16_neg [of "ucast m"] assms s16 show ?thesis
      unfolding p_def by simp
  qed
  then show ?thesis unfolding p_def .
qed

lemma encodeInt64_neg:
  fixes m :: "64 word"
  assumes "sint m < 0"
  shows "\<exists>k. encodeInt64 m = payload_item type1 k (word_of_int (- sint m - 1))
           \<and> nat (- sint m - 1) < neg_bound k"
proof -
  define p :: "64 word" where "p = word_of_int (- sint m - 1)"
  have lo: "- 9223372036854775808 \<le> sint m" using sint_ge [of m] by simp
  have e32: "(ucast p :: 32 word) = ucast (- (m + 1))"
    unfolding p_def by (rule ucast_neg_payload) simp_all
  have e64: "- m - 1 = p"
    unfolding p_def using neg_succ_of_int [of m] by simp
  have "\<exists>k. encodeInt64 m = payload_item type1 k p \<and> nat (- sint m - 1) < neg_bound k"
  proof (cases "sint m < - 2147483648")
    case True
    show ?thesis
    proof (cases "- 4294967296 < sint m")
      case True
      with \<open>sint m < - 2147483648\<close> have "encodeInt64 m = payload_item type1 3 p
          \<and> nat (- sint m - 1) < neg_bound 3"
        by (simp add: encodeInt64_def word_sless_alt payload_item_def e32 neg_bound_def)
      then show ?thesis by blast
    next
      case False
      with \<open>sint m < - 2147483648\<close> lo have "encodeInt64 m = payload_item type1 4 p
          \<and> nat (- sint m - 1) < neg_bound 4"
        by (simp add: encodeInt64_def word_sless_alt payload_item_def e64 neg_bound_def)
      then show ?thesis by blast
    qed
  next
    case False
    then have s32: "sint (ucast m :: 32 word) = sint m"
      using assms by (intro sint_ucast_down) simp_all
    from False assms have "encodeInt64 m = encodeInt32 (ucast m)"
      by (simp add: encodeInt64_def word_sless_alt)
    with encodeInt32_neg [of "ucast m"] assms s32 show ?thesis
      unfolding p_def by simp
  qed
  then show ?thesis unfolding p_def .
qed

subsection \<open>Scalars\<close>

declare decode.simps [simp del]

lemma uint_of_sint_nonneg:
  fixes w :: "'a::len word"
  assumes "0 \<le> sint w"
  shows "uint w < 2 ^ (LENGTH('a) - 1)"
proof -
  have nb: "\<not> bit w (LENGTH('a) - Suc 0)" using assms by (simp add: bit_last_iff)
  have len: "LENGTH('a) = Suc (LENGTH('a) - Suc 0)" by simp
  have "uint w = take_bit LENGTH('a) (uint w)"
    by (simp add: take_bit_int_eq_self uint_bounded)
  also have "\<dots> = take_bit (Suc (LENGTH('a) - Suc 0)) (uint w)"
    using len by simp
  also have "\<dots> = take_bit (LENGTH('a) - Suc 0) (uint w)"
    using nb by (simp only: take_bit_Suc_from_most bit_uint_iff) simp
  finally have "uint w = take_bit (LENGTH('a) - Suc 0) (uint w)" .
  moreover have "take_bit (LENGTH('a) - Suc 0) (uint w) < 2 ^ (LENGTH('a) - Suc 0)"
    by (rule take_bit_int_less_exp)
  ultimately show ?thesis by simp
qed

lemma sint_nonneg_eq_uint:
  fixes w :: "'a::len word"
  assumes "0 \<le> sint w"
  shows "sint w = uint w"
  by (rule sint_of_small) (rule uint_of_sint_nonneg [OF assms])

lemma int_form_nonneg: "0 \<le> k \<Longrightarrow> int_form k = VUint64 (word_of_int k)"
  by (simp add: int_form_def)

lemma int_form_neg: "k < 0 \<Longrightarrow> int_form k = VInt64 (word_of_int k)"
  by (simp add: int_form_def)

lemma decode_uint_item:
  assumes "n < 2 ^ 64"
  shows "decode dt (Suc fuel) (uint_item type0 n @ rest)
         = Some (Inr (VUint64 (of_nat n), width n))"
  unfolding uint_item_def
  using decode_payload_type0 [of "of_nat n" "width_class n" dt fuel rest]
    payload_bound_width_class [OF assms] unat_of_nat64 [OF assms]
  by (simp add: payload_len_width_class)

lemma decode_unsigned:
  fixes m :: "'a::len word"
  assumes "LENGTH('a) \<le> 64" "enc = uint_item type0 (unat m)"
  shows "decode dt (Suc fuel) (enc @ rest) = Some (Inr (int_form (uint m), length enc))"
proof -
  have "unat m < 2 ^ LENGTH('a)" by (rule unsigned_less)
  also have "(2::nat) ^ LENGTH('a) \<le> 2 ^ 64" using assms(1) by (intro power_increasing) simp_all
  finally have n: "unat m < 2 ^ 64" .
  have "(of_nat (unat m) :: 64 word) = word_of_int (uint m)" by simp
  then have v: "int_form (uint m) = VUint64 (of_nat (unat m))"
    by (simp add: int_form_nonneg)
  show ?thesis
    using decode_uint_item [OF n, of dt fuel rest]
    by (simp only: assms(2) v length_uint_item)
qed

lemma decode_negative:
  assumes "sint m < 0" "- (2 ^ 63) \<le> sint m"
    "\<exists>k. enc = payload_item type1 k (word_of_int (- sint m - 1))
           \<and> nat (- sint m - 1) < neg_bound k"
  shows "decode dt (Suc fuel) (enc @ rest) = Some (Inr (int_form (sint m), length enc))"
proof -
  from assms(3) obtain k where k: "enc = payload_item type1 k (word_of_int (- sint m - 1))"
    "nat (- sint m - 1) < neg_bound k" by blast
  define p :: "64 word" where "p = word_of_int (- sint m - 1)"
  have u: "unat p = nat (- sint m - 1)" unfolding p_def using assms(1,2) by (rule unat_neg_payload)
  have v: "int_form (sint m) = VInt64 (- p - 1)"
    using assms(1) by (simp add: int_form_neg p_def)
  have e: "enc = payload_item type1 k p" unfolding p_def by (rule k(1))
  have "decode dt (Suc fuel) (payload_item type1 k p @ rest)
        = Some (Inr (VInt64 (- p - 1), payload_len k))"
    using k(2) u by (intro decode_payload_type1) simp
  then show ?thesis
    by (simp only: e v length_payload_item)
qed

lemma sint_lower64:
  fixes m :: "'a::len word"
  assumes "LENGTH('a) \<le> 64"
  shows "- (2 ^ 63) \<le> sint m"
proof -
  have "LENGTH('a) - 1 \<le> 63" using assms by simp
  then have "(2::int) ^ (LENGTH('a) - 1) \<le> 2 ^ 63" by (intro power_increasing) simp_all
  with sint_ge [of m] show ?thesis by linarith
qed

lemma decode_signed:
  fixes m :: "'a::len word"
  assumes "LENGTH('a) \<le> 64"
    "0 \<le> sint m \<Longrightarrow> enc = uint_item type0 (unat m)"
    "sint m < 0 \<Longrightarrow> \<exists>k. enc = payload_item type1 k (word_of_int (- sint m - 1))
           \<and> nat (- sint m - 1) < neg_bound k"
  shows "decode dt (Suc fuel) (enc @ rest) = Some (Inr (int_form (sint m), length enc))"
proof (cases "0 \<le> sint m")
  case True
  then have "sint m = uint m" by (rule sint_nonneg_eq_uint)
  with decode_unsigned [OF assms(1) assms(2) [OF True], of dt fuel rest] show ?thesis
    by (simp only:)
next
  case False
  then have n: "sint m < 0" by simp
  show ?thesis
    by (rule decode_negative [OF n sint_lower64 [OF assms(1)] assms(3) [OF n]])
qed

lemma decode_encodeInt8:
  "decode dt (Suc fuel) (encodeInt8 m @ rest)
   = Some (Inr (int_form (sint m), length (encodeInt8 m)))"
proof (rule decode_signed)
  show "LENGTH(8) \<le> 64" by simp
next
  assume "0 \<le> sint m"
  then have "uint m < 128" using uint_of_sint_nonneg [of m] by simp
  then show "encodeInt8 m = uint_item type0 (unat m)"
    by (simp only: encodeInt8_nonneg encodeUint8_uint_item)
next
  assume "sint m < 0"
  then show "\<exists>k. encodeInt8 m = payload_item type1 k (word_of_int (- sint m - 1))
           \<and> nat (- sint m - 1) < neg_bound k" by (rule encodeInt8_neg)
qed

lemma decode_encodeInt16:
  "decode dt (Suc fuel) (encodeInt16 m @ rest)
   = Some (Inr (int_form (sint m), length (encodeInt16 m)))"
proof (rule decode_signed)
  show "LENGTH(16) \<le> 64" by simp
next
  assume "0 \<le> sint m"
  then have "uint m < 2 ^ 15" using uint_of_sint_nonneg [of m] by simp
  then show "encodeInt16 m = uint_item type0 (unat m)"
    by (simp only: encodeInt16_nonneg encodeUint16_uint_item)
next
  assume "sint m < 0"
  then show "\<exists>k. encodeInt16 m = payload_item type1 k (word_of_int (- sint m - 1))
           \<and> nat (- sint m - 1) < neg_bound k" by (rule encodeInt16_neg)
qed

lemma decode_encodeInt32:
  "decode dt (Suc fuel) (encodeInt32 m @ rest)
   = Some (Inr (int_form (sint m), length (encodeInt32 m)))"
proof (rule decode_signed)
  show "LENGTH(32) \<le> 64" by simp
next
  assume "0 \<le> sint m"
  then have "uint m < 2 ^ 31" using uint_of_sint_nonneg [of m] by simp
  then show "encodeInt32 m = uint_item type0 (unat m)"
    by (simp only: encodeInt32_nonneg encodeUint32_uint_item)
next
  assume "sint m < 0"
  then show "\<exists>k. encodeInt32 m = payload_item type1 k (word_of_int (- sint m - 1))
           \<and> nat (- sint m - 1) < neg_bound k" by (rule encodeInt32_neg)
qed

lemma decode_encodeInt64:
  "decode dt (Suc fuel) (encodeInt64 m @ rest)
   = Some (Inr (int_form (sint m), length (encodeInt64 m)))"
proof (rule decode_signed)
  show "LENGTH(64) \<le> 64" by simp
next
  assume "0 \<le> sint m"
  then have "uint m < 2 ^ 63" using uint_of_sint_nonneg [of m] by simp
  then show "encodeInt64 m = uint_item type0 (unat m)"
    by (simp only: encodeInt64_nonneg encodeUint64_uint_item)
next
  assume "sint m < 0"
  then show "\<exists>k. encodeInt64 m = payload_item type1 k (word_of_int (- sint m - 1))
           \<and> nat (- sint m - 1) < neg_bound k" by (rule encodeInt64_neg)
qed

lemma decode_encodeUint8:
  "decode dt (Suc fuel) (encodeUint8 m @ rest)
   = Some (Inr (int_form (uint m), length (encodeUint8 m)))"
  by (rule decode_unsigned) (simp_all add: encodeUint8_uint_item)

lemma decode_encodeUint16:
  "decode dt (Suc fuel) (encodeUint16 m @ rest)
   = Some (Inr (int_form (uint m), length (encodeUint16 m)))"
  by (rule decode_unsigned) (simp_all add: encodeUint16_uint_item)

lemma decode_encodeUint32:
  "decode dt (Suc fuel) (encodeUint32 m @ rest)
   = Some (Inr (int_form (uint m), length (encodeUint32 m)))"
  by (rule decode_unsigned) (simp_all add: encodeUint32_uint_item)

lemma decode_encodeUint64:
  "decode dt (Suc fuel) (encodeUint64 m @ rest)
   = Some (Inr (int_form (uint m), length (encodeUint64 m)))"
  by (rule decode_unsigned) (simp_all add: encodeUint64_uint_item)

lemma decode_singletons:
  "decode dt (Suc fuel) (encodeNull @ rest) = Some (Inr (VNil, length encodeNull))"
  "decode dt (Suc fuel) (encodeTrue @ rest) = Some (Inr (VBool True, length encodeTrue))"
  "decode dt (Suc fuel) (encodeFalse @ rest) = Some (Inr (VBool False, length encodeFalse))"
  "decode dt (Suc fuel) (encodeUndefined @ rest)
   = Some (Inr (VUndefined simpleUndefined, length encodeUndefined))"
  unfolding encodeNull_def encodeTrue_def encodeFalse_def encodeUndefined_def
  by (simp_all add: decode_simple [OF cborDecoders_entries(15)]
      decode_simple [OF cborDecoders_entries(14)] decode_simple [OF cborDecoders_entries(13)]
      decode_simple [OF cborDecoders_entries(16)]
      decodeNull_def decodeTrue_def decodeFalse_def decodeUndefined_def is_Indefinite_def)

lemma decode_encodeFloat32:
  "decode dt (Suc fuel) (encodeFloat32 v @ rest)
   = Some (Inr (VFloat32 v, length (encodeFloat32 v)))"
  unfolding encodeFloat32_def
  by (simp add: decode_simple [OF cborDecoders_entries(19)] decodeFloat32_def slice_from_def
      bind_e_def Uint32_PutUint32 is_Indefinite_def PutUint32_def [THEN arg_cong, of length])

lemma decode_encodeFloat64:
  "decode dt (Suc fuel) (encodeFloat64 v @ rest)
   = Some (Inr (VFloat64 v, length (encodeFloat64 v)))"
  unfolding encodeFloat64_def
  by (simp add: decode_simple [OF cborDecoders_entries(20)] decodeFloat64_def slice_from_def
      bind_e_def Uint64_PutUint64 is_Indefinite_def PutUint64_def [THEN arg_cong, of length])

subsection \<open>Byte and text strings\<close>

lemma decode_with:
  assumes "buf \<noteq> []" "cborDecoders dt (hd buf) = Some dec"
    "dec (decode dt fuel) buf = Some (Inr (item, n))" "\<not> is_Indefinite item"
  shows "decode dt (Suc fuel) buf = Some (Inr (item, n))"
  using assms by (cases buf) (simp_all add: decode.simps index_def bind_d_def)

lemma payload_item_hd:
  assumes "unat p < payload_bound k"
  shows "\<exists>i bs. payload_item t k p = hdr t i # bs \<and> unat i < 28"
proof -
  consider "k = 0" | "k = 1" | "k = 2" | "k = 3" | "4 \<le> k" by linarith
  then show ?thesis
  proof cases
    case 1
    then have p: "unat p < 24" using assms by (simp add: payload_bound_def)
    then have "unat (ucast p :: byte) = unat p" by (intro unat_ucast_small) simp
    with p have "unat (ucast p :: byte) < 28" by simp
    with 1 show ?thesis by (simp add: payload_item_def) blast
  next
    case 2
    have "unat info24 < 28" by (simp add: info24_def)
    with 2 show ?thesis by (simp add: payload_item_def) blast
  next
    case 3
    have "unat info25 < 28" by (simp add: info25_def)
    with 3 show ?thesis by (simp add: payload_item_def) blast
  next
    case 4
    have "unat info26 < 28" by (simp add: info26_def)
    with 4 show ?thesis by (simp add: payload_item_def) blast
  next
    case 5
    have "unat info27 < 28" by (simp add: info27_def)
    with 5 show ?thesis by (simp add: payload_item_def) blast
  qed
qed

lemma uint_item_hd:
  assumes "n < 2 ^ 64"
  shows "\<exists>i bs. uint_item t n = hdr t i # bs \<and> unat i < 28"
  unfolding uint_item_def
  using payload_item_hd [of "of_nat n" "width_class n" t]
    payload_bound_width_class [OF assms] unat_of_nat64 [OF assms]
  by simp

lemma encodeBytes_uint_item:
  assumes "length s < 2 ^ 64"
  shows "encodeBytes s = uint_item type2 (length s) @ s"
proof -
  have "unat (of_nat (length s) :: 64 word) = length s" using assms by (rule unat_of_nat64)
  then show ?thesis
    by (simp add: encodeBytes_def encodeUint64_uint_item retag_uint_item is_major_types)
qed

lemma decode_encodeBytes:
  assumes "length s < 2 ^ 63"
  shows "decode dt (Suc fuel) (encodeBytes s @ rest)
         = Some (Inr (VBytes s, length (encodeBytes s)))"
proof -
  have n64: "length s < 2 ^ 64" using assms by simp
  let ?H = "uint_item type2 (length s)"
  obtain i bs where h: "?H = hdr type2 i # bs" "unat i < 28"
    using uint_item_hd [OF n64, of type2] by blast
  have e: "encodeBytes s = ?H @ s" by (rule encodeBytes_uint_item [OF n64])
  have t: "cborDecoders dt (hd (?H @ s @ rest)) = Some (simple_decoder decodeType2)"
    using h by (simp add: cborDecoders_type2)
  have dl: "decodeLength (?H @ s @ rest) = Inr (int (length s), width (length s))"
    by (rule decodeLength_uint_item [OF assms])
  have d: "decodeType2 (?H @ s @ rest) = Inr (VBytes s, width (length s) + length s)"
    by (simp add: decodeType2_def dl bind_e_def slice_def length_uint_item)
  have ne: "?H @ s @ rest \<noteq> []" using h(1) by simp
  have "decode dt (Suc fuel) (?H @ s @ rest) = Some (Inr (VBytes s, width (length s) + length s))"
    by (rule decode_with [OF ne t]) (simp_all add: simple_decoder_def d is_Indefinite_def)
  then show ?thesis by (simp add: e length_uint_item)
qed

lemma decode_encodeText:
  assumes "length s < 2 ^ 63"
  shows "decode dt (Suc fuel) (encodeText s @ rest)
         = Some (Inr (VText s, length (encodeText s)))"
proof -
  have n64: "length s < 2 ^ 64" using assms by simp
  let ?H = "uint_item type3 (length s)"
  obtain i bs where h: "?H = hdr type3 i # bs" "unat i < 28"
    using uint_item_hd [OF n64, of type3] by blast
  have e: "encodeText s = ?H @ s" by (rule encodeText_uint_item [OF n64])
  have t: "cborDecoders dt (hd (?H @ s @ rest)) = Some (simple_decoder decodeType3)"
    using h by (simp add: cborDecoders_type3)
  have dl: "decodeLength (?H @ s @ rest) = Inr (int (length s), width (length s))"
    by (rule decodeLength_uint_item [OF assms])
  have d: "decodeType3 (?H @ s @ rest) = Inr (VText s, width (length s) + length s)"
    by (simp add: decodeType3_def dl bind_e_def slice_def length_uint_item)
  have ne: "?H @ s @ rest \<noteq> []" using h(1) by simp
  have "decode dt (Suc fuel) (?H @ s @ rest) = Some (Inr (VText s, width (length s) + length s))"
    by (rule decode_with [OF ne t]) (simp_all add: simple_decoder_def d is_Indefinite_def)
  then show ?thesis by (simp add: e length_uint_item)
qed

subsection \<open>Arrays and maps\<close>

lemma foldr_max_le: "foldr max (map f xs) 0 \<le> (n::nat) \<longleftrightarrow> (\<forall>x \<in> set xs. f x \<le> n)"
  by (induction xs) auto

lemma roundtrips_scalar:
  assumes "encode v = Inr bs" "depth v = Suc 0"
    "\<And>fuel rest. decode dt (Suc fuel) (bs @ rest) = Some (Inr (decoded_form v, length bs))"
  shows "roundtrips dt v"
  unfolding roundtrips_def
proof (intro exI conjI allI impI)
  show "encode v = Inr bs" by (rule assms(1))
next
  fix fuel rest assume "depth v \<le> fuel"
  then obtain f where "fuel = Suc f" using assms(2) by (cases fuel) simp_all
  then show "decode dt fuel (bs @ rest) = Some (Inr (decoded_form v, length bs))"
    using assms(3) by simp
qed

lemma encodeArray_uint_item:
  assumes "encodeArrayItems xs = Inr bs" "length xs < 2 ^ 64"
  shows "encode (VArray xs) = Inr (uint_item type4 (length xs) @ bs)"
proof -
  have "unat (of_nat (length xs) :: 64 word) = length xs" using assms(2) by (rule unat_of_nat64)
  then show ?thesis
    using assms(1) by (simp add: encodeUint64_uint_item retag_uint_item is_major_types)
qed

lemma encodeMap_uint_item:
  assumes "encodeMapItems xs = Inr bs" "length xs < 2 ^ 64"
  shows "encode (VMap xs) = Inr (uint_item type5 (length xs) @ bs)"
proof -
  have "unat (of_nat (length xs) :: 64 word) = length xs" using assms(2) by (rule unat_of_nat64)
  then show ?thesis
    using assms(1) by (simp add: encodeUint64_uint_item retag_uint_item is_major_types)
qed

lemma roundtrips_array:
  assumes "items_roundtrip dt xs" "length xs < 2 ^ 63"
  shows "roundtrips dt (VArray xs)"
proof -
  from assms(1) obtain bs where bs: "encodeArrayItems xs = Inr bs"
    and loop: "\<And>fuel pre rest acc. \<forall>x \<in> set xs. depth x \<le> fuel \<Longrightarrow>
           decodeType4_loop (decode dt fuel) (pre @ bs @ rest) (length xs) (length pre) acc
           = Some (Inr (VArray (acc @ map decoded_form xs), length pre + length bs))"
    unfolding items_roundtrip_def by blast
  have n64: "length xs < 2 ^ 64" using assms(2) by simp
  let ?H = "uint_item type4 (length xs)"
  obtain i hs where h: "?H = hdr type4 i # hs" "unat i < 28"
    using uint_item_hd [OF n64, of type4] by blast
  have e: "encode (VArray xs) = Inr (?H @ bs)" by (rule encodeArray_uint_item [OF bs n64])
  have "decode dt fuel ((?H @ bs) @ rest)
        = Some (Inr (decoded_form (VArray xs), length (?H @ bs)))"
    if d: "depth (VArray xs) \<le> fuel" for fuel rest
  proof -
    from d obtain f where f: "fuel = Suc f" by (cases fuel) simp_all
    with d have small: "\<forall>x \<in> set xs. depth x \<le> f" by (simp add: foldr_max_le)
    have ne: "?H @ bs @ rest \<noteq> []" using h(1) by simp
    have t: "cborDecoders dt (hd (?H @ bs @ rest)) = Some decodeType4"
      using h by (simp add: cborDecoders_type4)
    have dl: "decodeLength (?H @ bs @ rest) = Inr (int (length xs), width (length xs))"
      by (rule decodeLength_uint_item [OF assms(2)])
    have "decodeType4 (decode dt f) (?H @ bs @ rest)
          = decodeType4_loop (decode dt f) (?H @ bs @ rest) (length xs) (length ?H) []"
      by (simp add: decodeType4_def dl length_uint_item)
    also have "\<dots> = Some (Inr (VArray ([] @ map decoded_form xs), length ?H + length bs))"
      by (rule loop [OF small])
    finally have "decode dt (Suc f) (?H @ bs @ rest)
          = Some (Inr (VArray ([] @ map decoded_form xs), length ?H + length bs))"
      by (intro decode_with [OF ne t]) (simp_all add: is_Indefinite_def)
    then show ?thesis by (simp add: f)
  qed
  with e show ?thesis unfolding roundtrips_def by blast
qed

lemma roundtrips_map:
  assumes "pairs_roundtrip dt xs" "length xs < 2 ^ 63"
  shows "roundtrips dt (VMap xs)"
proof -
  from assms(1) obtain bs where bs: "encodeMapItems xs = Inr bs"
    and loop: "\<And>fuel pre rest acc.
           \<forall>p \<in> set xs. depth (fst p) \<le> fuel \<and> depth (snd p) \<le> fuel \<Longrightarrow>
           decodeType5_loop (decode dt fuel) (pre @ bs @ rest) (length xs) (length pre) acc
           = Some (Inr (VMap (acc @ map (\<lambda>(key, value). (decoded_form key, decoded_form value))
                                       xs),
                        length pre + length bs))"
    unfolding pairs_roundtrip_def by blast
  have n64: "length xs < 2 ^ 64" using assms(2) by simp
  let ?H = "uint_item type5 (length xs)"
  obtain i hs where h: "?H = hdr type5 i # hs" "unat i < 28"
    using uint_item_hd [OF n64, of type5] by blast
  have e: "encode (VMap xs) = Inr (?H @ bs)" by (rule encodeMap_uint_item [OF bs n64])
  have "decode dt fuel ((?H @ bs) @ rest)
        = Some (Inr (decoded_form (VMap xs), length (?H @ bs)))"
    if d: "depth (VMap xs) \<le> fuel" for fuel rest
  proof -
    from d obtain f where f: "fuel = Suc f" by (cases fuel) simp_all
    with d have "\<forall>p \<in> set xs. (case p of (key, value) \<Rightarrow> max (depth key) (depth value)) \<le> f"
      by (simp add: foldr_max_le)
    then have small: "\<forall>p \<in> set xs. depth (fst p) \<le> f \<and> depth (snd p) \<le> f"
      by (auto simp add: case_prod_beta)
    have ne: "?H @ bs @ rest \<noteq> []" using h(1) by simp
    have t: "cborDecoders dt (hd (?H @ bs @ rest)) = Some decodeType5"
      using h by (simp add: cborDecoders_type5)
    have dl: "decodeLength (?H @ bs @ rest) = Inr (int (length xs), width (length xs))"
      by (rule decodeLength_uint_item [OF assms(2)])
    have "decodeType5 (decode dt f) (?H @ bs @ rest)
          = decodeType5_loop (decode dt f) (?H @ bs @ rest) (length xs) (length ?H) []"
      by (simp add: decodeType5_def dl length_uint_item)
    also have "\<dots> = Some (Inr (VMap ([] @ map (\<lambda>(key, value). (decoded_form key, decoded_form value)) xs),
                        length ?H + length bs))"
      by (rule loop [OF small])
    finally have "decode dt (Suc f) (?H @ bs @ rest)
          = Some (Inr (VMap ([] @ map (\<lambda>(key, value). (decoded_form key, decoded_form value)) xs),
                        length ?H + length bs))"
      by (intro decode_with [OF ne t]) (simp_all add: is_Indefinite_def)
    then show ?thesis by (simp add: f)
  qed
  with e show ?thesis unfolding roundtrips_def by blast
qed

lemma items_roundtrip_Nil: "items_roundtrip dt []"
  by (simp add: items_roundtrip_def)

lemma items_roundtrip_Cons:
  assumes "roundtrips dt item" "items_roundtrip dt items"
  shows "items_roundtrip dt (item # items)"
proof -
  from assms(1) obtain a where a: "encode item = Inr a"
    and da: "\<And>fuel rest. depth item \<le> fuel \<Longrightarrow>
              decode dt fuel (a @ rest) = Some (Inr (decoded_form item, length a))"
    unfolding roundtrips_def by blast
  from assms(2) obtain bs where bs: "encodeArrayItems items = Inr bs"
    and loop: "\<And>fuel pre rest acc. \<forall>x \<in> set items. depth x \<le> fuel \<Longrightarrow>
           decodeType4_loop (decode dt fuel) (pre @ bs @ rest) (length items) (length pre) acc
           = Some (Inr (VArray (acc @ map decoded_form items), length pre + length bs))"
    unfolding items_roundtrip_def by blast
  have e: "encodeArrayItems (item # items) = Inr (a @ bs)" using a bs by simp
  have "decodeType4_loop (decode dt fuel) (pre @ (a @ bs) @ rest) (length (item # items))
          (length pre) acc
        = Some (Inr (VArray (acc @ map decoded_form (item # items)), length pre + length (a @ bs)))"
    if d: "\<forall>x \<in> set (item # items). depth x \<le> fuel" for fuel pre rest acc
  proof -
    have d1: "depth item \<le> fuel" and d2: "\<forall>x \<in> set items. depth x \<le> fuel" using d by simp_all
    have "decodeType4_loop (decode dt fuel) (pre @ (a @ bs) @ rest) (Suc (length items))
            (length pre) acc
          = decodeType4_loop (decode dt fuel) ((pre @ a) @ bs @ rest) (length items)
              (length (pre @ a)) (acc @ [decoded_form item])"
      using da [OF d1, of "bs @ rest"] by (simp add: slice_from_def bind_d_def)
    also have "\<dots> = Some (Inr (VArray ((acc @ [decoded_form item]) @ map decoded_form items),
                     length (pre @ a) + length bs))"
      by (rule loop [OF d2])
    finally show ?thesis by simp
  qed
  with e show ?thesis unfolding items_roundtrip_def by blast
qed

lemma pairs_roundtrip_Nil: "pairs_roundtrip dt []"
  by (simp add: pairs_roundtrip_def)

lemma pairs_roundtrip_Cons:
  assumes "roundtrips dt key" "roundtrips dt value" "pairs_roundtrip dt items"
  shows "pairs_roundtrip dt ((key, value) # items)"
proof -
  from assms(1) obtain a where a: "encode key = Inr a"
    and da: "\<And>fuel rest. depth key \<le> fuel \<Longrightarrow>
              decode dt fuel (a @ rest) = Some (Inr (decoded_form key, length a))"
    unfolding roundtrips_def by blast
  from assms(2) obtain b where b: "encode value = Inr b"
    and db: "\<And>fuel rest. depth value \<le> fuel \<Longrightarrow>
              decode dt fuel (b @ rest) = Some (Inr (decoded_form value, length b))"
    unfolding roundtrips_def by blast
  from assms(3) obtain bs where bs: "encodeMapItems items = Inr bs"
    and loop: "\<And>fuel pre rest acc.
           \<forall>p \<in> set items. depth (fst p) \<le> fuel \<and> depth (snd p) \<le> fuel \<Longrightarrow>
           decodeType5_loop (decode dt fuel) (pre @ bs @ rest) (length items) (length pre) acc
           = Some (Inr (VMap (acc @ map (\<lambda>(key, value). (decoded_form key, decoded_form value))
                                       items),
                        length pre + length bs))"
    unfolding pairs_roundtrip_def by blast
  have e: "encodeMapItems ((key, value) # items) = Inr (a @ b @ bs)" using a b bs by simp
  have "decodeType5_loop (decode dt fuel) (pre @ (a @ b @ bs) @ rest)
          (length ((key, value) # items)) (length pre) acc
        = Some (Inr (VMap (acc @ map (\<lambda>(key, value). (decoded_form key, decoded_form value))
                                    ((key, value) # items)),
                     length pre + length (a @ b @ bs)))"
    if d: "\<forall>p \<in> set ((key, value) # items). depth (fst p) \<le> fuel \<and> depth (snd p) \<le> fuel"
    for fuel pre rest acc
  proof -
    have d1: "depth key \<le> fuel" and d2: "depth value \<le> fuel"
      and d3: "\<forall>p \<in> set items. depth (fst p) \<le> fuel \<and> depth (snd p) \<le> fuel"
      using d by simp_all
    have "decodeType5_loop (decode dt fuel) (pre @ (a @ b @ bs) @ rest) (Suc (length items))
            (length pre) acc
          = decodeType5_loop (decode dt fuel) ((pre @ a @ b) @ bs @ rest) (length items)
              (length (pre @ a @ b)) (acc @ [(decoded_form key, decoded_form value)])"
      using da [OF d1, of "b @ bs @ rest"] db [OF d2, of "bs @ rest"]
      by (simp add: slice_from_def bind_d_def add.assoc)
    also have "\<dots> = Some (Inr (VMap ((acc @ [(decoded_form key, decoded_form value)])
                       @ map (\<lambda>(key, value). (decoded_form key, decoded_form value)) items),
                     length (pre @ a @ b) + length bs))"
      by (rule loop [OF d3])
    finally show ?thesis by simp
  qed
  with e show ?thesis unfolding pairs_roundtrip_def by blast
qed

subsection \<open>Tagged items\<close>

lemma cborDecoders_type6_small:
  "unat i < 24 \<Longrightarrow> cborDecoders dt (hdr type6 i) = Some dt"
  apply (rule cborDecoders_member)
  apply (drule in_segment [where f="hdr type6" and c="dt"])
  unfolding cborDecoders_init_def
  apply (simp only: set_append Un_iff simp_thms)
  done

lemma cborDecoders_type6_payload:
  assumes "i \<in> {info24, info25, info26, info27}"
  shows "cborDecoders dt (hdr type6 i) = Some dt"
  apply (rule cborDecoders_member)
  unfolding cborDecoders_init_def
  apply (simp only: set_append Un_iff list.set insert_iff empty_iff)
  using assms apply (elim insertE emptyE; simp)
  done

lemma cborDecoders_type6:
  assumes "unat i < 28"
  shows "cborDecoders dt (hdr type6 i) = Some dt"
proof (cases "unat i < 24")
  case True
  then show ?thesis by (rule cborDecoders_type6_small)
next
  case False
  have i: "i = of_nat (unat i)" by simp
  from False assms consider "unat i = 24" | "unat i = 25" | "unat i = 26" | "unat i = 27"
    by linarith
  then have "i \<in> {info24, info25, info26, info27}"
  proof cases
    case 1
    with i have "i = 24" by (simp only: of_nat_numeral)
    then show ?thesis by (simp add: cbor_consts)
  next
    case 2
    with i have "i = 25" by (simp only: of_nat_numeral)
    then show ?thesis by (simp add: cbor_consts)
  next
    case 3
    with i have "i = 26" by (simp only: of_nat_numeral)
    then show ?thesis by (simp add: cbor_consts)
  next
    case 4
    with i have "i = 27" by (simp only: of_nat_numeral)
    then show ?thesis by (simp add: cbor_consts)
  qed
  then show ?thesis by (rule cborDecoders_type6_payload)
qed

lemma encodeTag_uint_item: "encodeTag t = uint_item type6 (unat t)"
  by (simp add: encodeTag_def encodeUint64_uint_item retag_uint_item is_major_types)

lemma decode_tagged:
  assumes t: "unat t < 2 ^ 63"
    and c: "decode (decodeTag other) fuel (content @ rest) = Some (Inr (item, m))"
    and w: "tagged (uint t) item = Some v"
    and v: "\<not> is_Indefinite v"
  shows "decode (decodeTag other) (Suc fuel) (encodeTag t @ content @ rest)
         = Some (Inr (v, length (encodeTag t) + m))"
proof -
  have n64: "unat t < 2 ^ 64" using t by simp
  let ?H = "uint_item type6 (unat t)"
  obtain i hs where h: "?H = hdr type6 i # hs" "unat i < 28"
    using uint_item_hd [OF n64, of type6] by blast
  have ne: "?H @ content @ rest \<noteq> []" using h(1) by simp
  have tb: "cborDecoders (decodeTag other) (hd (?H @ content @ rest)) = Some (decodeTag other)"
    using h by (simp add: cborDecoders_type6)
  have dl: "decodeLength (?H @ content @ rest) = Inr (int (unat t), width (unat t))"
    by (rule decodeLength_uint_item [OF t])
  have "decodeTag other (decode (decodeTag other) fuel) (?H @ content @ rest)
        = Some (Inr (v, length ?H + m))"
    using c w by (simp add: decodeTag_def dl slice_from_def length_uint_item bind_d_def)
  then have "decode (decodeTag other) (Suc fuel) (?H @ content @ rest)
        = Some (Inr (v, length ?H + m))"
    using v by (intro decode_with [OF ne tb])
  then show ?thesis by (simp only: encodeTag_uint_item)
qed

lemma be_value_snoc: "be_value (bs @ [b]) = be_value bs * 256 + unat b"
  by (simp add: be_value_def)

lemma be_value_be_bytes: "be_value (be_bytes n) = n"
proof (induction n rule: be_bytes.induct)
  case (1 n)
  show ?case
  proof (cases "n = 0")
    case True
    then show ?thesis by (simp add: be_bytes.simps be_value_def)
  next
    case False
    have "unat (of_nat (n mod 256) :: byte) = n mod 256" by (simp add: unat_of_nat)
    with False 1 show ?thesis
      by (subst be_bytes.simps) (simp add: be_value_snoc)
  qed
qed

lemma roundtrips_from:
  assumes "encode v = Inr bs"
    "\<And>fuel rest. decode dt (depth v + fuel) (bs @ rest) = Some (Inr (decoded_form v, length bs))"
  shows "roundtrips dt v"
  unfolding roundtrips_def
proof (intro exI conjI allI impI)
  show "encode v = Inr bs" by (rule assms(1))
next
  fix fuel rest assume "depth v \<le> fuel"
  then have "fuel = depth v + (fuel - depth v)" by simp
  then show "decode dt fuel (bs @ rest) = Some (Inr (decoded_form v, length bs))"
    using assms(2) [of "fuel - depth v" rest] by simp
qed

lemma tag_numbers:
  "unat tagDateTime < 2 ^ 63" "unat tagEpoch < 2 ^ 63" "unat tagPosBignum < 2 ^ 63"
  "unat tagNegBignum < 2 ^ 63" "unat tagDecimalFraction < 2 ^ 63" "unat tagBigFloat < 2 ^ 63"
  "unat tagCborEnc < 2 ^ 63" "unat tagRegexp < 2 ^ 63" "unat tagCborPrefix < 2 ^ 63"
  by (simp_all add: tagDateTime_def tagEpoch_def tagPosBignum_def tagNegBignum_def
      tagDecimalFraction_def tagBigFloat_def tagCborEnc_def tagRegexp_def tagCborPrefix_def)

lemma tagged_table:
  "tagged (uint tagDateTime) (VText s) = Some (VTime s)"
  "tagged (uint tagEpoch) (VUint64 u) = Some (VEpoch u)"
  "tagged (uint tagEpoch) (VInt64 u) = Some (VEpoch u)"
  "tagged (uint tagEpoch) (VFloat64 f) = Some (VEpochMicro f)"
  "tagged (uint tagPosBignum) (VBytes b) = Some (VBigInt (int (be_value b)))"
  "tagged (uint tagNegBignum) (VBytes b) = Some (VBigInt (- int (be_value b)))"
  "tagged (uint tagDecimalFraction) item = map_option (\<lambda>(e, m). VDecimalFraction e m) (exp_mantissa item)"
  "tagged (uint tagBigFloat) item = map_option (\<lambda>(e, m). VBigFloat e m) (exp_mantissa item)"
  "tagged (uint tagCborEnc) (VBytes b) = Some (VCbor b)"
  "tagged (uint tagRegexp) (VText s) = Some (VRegexp s)"
  "tagged (uint tagCborPrefix) (VBytes b) = Some (VCborPrefix b)"
  by (simp_all add: tagged_def tagDateTime_def tagEpoch_def tagPosBignum_def tagNegBignum_def
      tagDecimalFraction_def tagBigFloat_def tagCborEnc_def tagRegexp_def tagCborPrefix_def)

lemma roundtrips_VTime:
  assumes "length s < 2 ^ 63"
  shows "roundtrips (decodeTag other) (VTime s)"
proof (rule roundtrips_from [where bs = "encodeDateTime s"])
  show "encode (VTime s) = Inr (encodeDateTime s)" by simp
next
  fix fuel rest
  have c: "decode (decodeTag other) (Suc fuel) (encodeText s @ rest)
           = Some (Inr (VText s, length (encodeText s)))"
    by (rule decode_encodeText [OF assms])
  from decode_tagged [OF tag_numbers(1) c tagged_table(1)]
  show "decode (decodeTag other) (depth (VTime s) + fuel) (encodeDateTime s @ rest)
        = Some (Inr (decoded_form (VTime s), length (encodeDateTime s)))"
    by (simp add: encodeDateTime_def is_Indefinite_def)
qed

lemma roundtrips_VRegexp:
  assumes "length s < 2 ^ 63"
  shows "roundtrips (decodeTag other) (VRegexp s)"
proof (rule roundtrips_from [where bs = "encodeRegexp s"])
  show "encode (VRegexp s) = Inr (encodeRegexp s)" by simp
next
  fix fuel rest
  have c: "decode (decodeTag other) (Suc fuel) (encodeText s @ rest)
           = Some (Inr (VText s, length (encodeText s)))"
    by (rule decode_encodeText [OF assms])
  from decode_tagged [OF tag_numbers(8) c tagged_table(10)]
  show "decode (decodeTag other) (depth (VRegexp s) + fuel) (encodeRegexp s @ rest)
        = Some (Inr (decoded_form (VRegexp s), length (encodeRegexp s)))"
    by (simp add: encodeRegexp_def is_Indefinite_def)
qed

lemma roundtrips_VCbor:
  assumes "length s < 2 ^ 63"
  shows "roundtrips (decodeTag other) (VCbor s)"
proof (rule roundtrips_from [where bs = "encodeCbor s"])
  show "encode (VCbor s) = Inr (encodeCbor s)" by simp
next
  fix fuel rest
  have c: "decode (decodeTag other) (Suc fuel) (encodeBytes s @ rest)
           = Some (Inr (VBytes s, length (encodeBytes s)))"
    by (rule decode_encodeBytes [OF assms])
  from decode_tagged [OF tag_numbers(7) c tagged_table(9)]
  show "decode (decodeTag other) (depth (VCbor s) + fuel) (encodeCbor s @ rest)
        = Some (Inr (decoded_form (VCbor s), length (encodeCbor s)))"
    by (simp add: encodeCbor_def is_Indefinite_def)
qed

lemma roundtrips_VCborPrefix:
  assumes "length s < 2 ^ 63"
  shows "roundtrips (decodeTag other) (VCborPrefix s)"
proof (rule roundtrips_from [where bs = "encodeCborPrefix s"])
  show "encode (VCborPrefix s) = Inr (encodeCborPrefix s)" by simp
next
  fix fuel rest
  have c: "decode (decodeTag other) (Suc fuel) (encodeBytes s @ rest)
           = Some (Inr (VBytes s, length (encodeBytes s)))"
    by (rule decode_encodeBytes [OF assms])
  from decode_tagged [OF tag_numbers(9) c tagged_table(11)]
  show "decode (decodeTag other) (depth (VCborPrefix s) + fuel) (encodeCborPrefix s @ rest)
        = Some (Inr (decoded_form (VCborPrefix s), length (encodeCborPrefix s)))"
    by (simp add: encodeCborPrefix_def is_Indefinite_def)
qed

lemma roundtrips_VEpochMicro: "roundtrips (decodeTag other) (VEpochMicro s)"
proof (rule roundtrips_from [where bs = "encodeEpochMicro s"])
  show "encode (VEpochMicro s) = Inr (encodeEpochMicro s)" by simp
next
  fix fuel rest
  have c: "decode (decodeTag other) (Suc fuel) (encodeFloat64 s @ rest)
           = Some (Inr (VFloat64 s, length (encodeFloat64 s)))"
    by (rule decode_encodeFloat64)
  from decode_tagged [OF tag_numbers(2) c tagged_table(4)]
  show "decode (decodeTag other) (depth (VEpochMicro s) + fuel) (encodeEpochMicro s @ rest)
        = Some (Inr (decoded_form (VEpochMicro s), length (encodeEpochMicro s)))"
    by (simp add: encodeEpochMicro_def is_Indefinite_def)
qed

lemma tagged_Epoch_int_form: "tagged (uint tagEpoch) (int_form (sint s)) = Some (VEpoch s)"
proof (cases "0 \<le> sint s")
  case True
  then have "int_form (sint s) = VUint64 (word_of_int (sint s))" by (rule int_form_nonneg)
  then have "int_form (sint s) = VUint64 s" by (simp only: word_of_int_sint_id)
  then show ?thesis by (simp only: tagged_table)
next
  case False
  then have "int_form (sint s) = VInt64 (word_of_int (sint s))" by (intro int_form_neg) simp
  then have "int_form (sint s) = VInt64 s" by (simp only: word_of_int_sint_id)
  then show ?thesis by (simp only: tagged_table)
qed

lemma roundtrips_VEpoch: "roundtrips (decodeTag other) (VEpoch s)"
proof (rule roundtrips_from [where bs = "encodeEpoch s"])
  show "encode (VEpoch s) = Inr (encodeEpoch s)" by simp
next
  fix fuel rest
  have c: "decode (decodeTag other) (Suc fuel) (encodeInt64 s @ rest)
           = Some (Inr (int_form (sint s), length (encodeInt64 s)))"
    by (rule decode_encodeInt64)
  from decode_tagged [OF tag_numbers(2) c tagged_Epoch_int_form]
  show "decode (decodeTag other) (depth (VEpoch s) + fuel) (encodeEpoch s @ rest)
        = Some (Inr (decoded_form (VEpoch s), length (encodeEpoch s)))"
    by (simp add: encodeEpoch_def is_Indefinite_def)
qed

lemma roundtrips_VBigInt:
  assumes "length (be_bytes (nat (abs n))) < 2 ^ 63"
  shows "roundtrips (decodeTag other) (VBigInt n)"
proof (rule roundtrips_from [where bs = "encodeBigNum n"])
  show "encode (VBigInt n) = Inr (encodeBigNum n)" by simp
next
  fix fuel rest
  show "decode (decodeTag other) (depth (VBigInt n) + fuel) (encodeBigNum n @ rest)
        = Some (Inr (decoded_form (VBigInt n), length (encodeBigNum n)))"
  proof (cases "0 \<le> n")
    case True
    then have l: "length (be_bytes (nat n)) < 2 ^ 63" using assms by simp
    have c: "decode (decodeTag other) (Suc fuel) (encodeBytes (be_bytes (nat n)) @ rest)
             = Some (Inr (VBytes (be_bytes (nat n)), length (encodeBytes (be_bytes (nat n)))))"
      by (rule decode_encodeBytes [OF l])
    from decode_tagged [OF tag_numbers(3) c tagged_table(5)] True
    show ?thesis by (simp add: encodeBigNum_def is_Indefinite_def be_value_be_bytes)
  next
    case False
    then have l: "length (be_bytes (nat (- n))) < 2 ^ 63" using assms by simp
    have c: "decode (decodeTag other) (Suc fuel) (encodeBytes (be_bytes (nat (- n))) @ rest)
             = Some (Inr (VBytes (be_bytes (nat (- n))),
                          length (encodeBytes (be_bytes (nat (- n))))))"
      by (rule decode_encodeBytes [OF l])
    from decode_tagged [OF tag_numbers(4) c tagged_table(6)] False
    show ?thesis by (simp add: encodeBigNum_def is_Indefinite_def be_value_be_bytes)
  qed
qed

lemma as_int64_int_form: "as_int64 (int_form (sint s)) = Some s"
proof (cases "0 \<le> sint s")
  case True
  then have "int_form (sint s) = VUint64 (word_of_int (sint s))" by (rule int_form_nonneg)
  then have "int_form (sint s) = VUint64 s" by (simp only: word_of_int_sint_id)
  then show ?thesis by (simp add: as_int64_def)
next
  case False
  then have "int_form (sint s) = VInt64 (word_of_int (sint s))" by (intro int_form_neg) simp
  then have "int_form (sint s) = VInt64 s" by (simp only: word_of_int_sint_id)
  then show ?thesis by (simp add: as_int64_def)
qed

lemma exp_mantissa_int_form:
  "exp_mantissa (VArray [int_form (sint e), int_form (sint m)]) = Some (e, m)"
  by (simp add: exp_mantissa_def as_int64_int_form)

lemma roundtrips_VInt64: "roundtrips dt (VInt64 v)"
  by (rule roundtrips_scalar [where bs = "encodeInt64 v"]) (simp_all add: decode_encodeInt64)

lemma decode_exp_mantissa:
  "decode dt (Suc (Suc fuel)) (retag type4 (encodeUint64 2) @ encodeInt64 e @ encodeInt64 m @ rest)
   = Some (Inr (VArray [int_form (sint e), int_form (sint m)],
                length (retag type4 (encodeUint64 2) @ encodeInt64 e @ encodeInt64 m)))"
proof -
  have "items_roundtrip dt [VInt64 e, VInt64 m]"
    by (intro items_roundtrip_Cons items_roundtrip_Nil roundtrips_VInt64)
  then have "roundtrips dt (VArray [VInt64 e, VInt64 m])" by (rule roundtrips_array) simp
  moreover have "encode (VArray [VInt64 e, VInt64 m])
                 = Inr (retag type4 (encodeUint64 2) @ encodeInt64 e @ encodeInt64 m)"
    by simp
  moreover have "depth (VArray [VInt64 e, VInt64 m]) \<le> Suc (Suc fuel)" by simp
  ultimately have "decode dt (Suc (Suc fuel))
        ((retag type4 (encodeUint64 2) @ encodeInt64 e @ encodeInt64 m) @ rest)
      = Some (Inr (decoded_form (VArray [VInt64 e, VInt64 m]),
                   length (retag type4 (encodeUint64 2) @ encodeInt64 e @ encodeInt64 m)))"
    unfolding roundtrips_def by (metis sum.inject(2))
  then show ?thesis by simp
qed

lemma roundtrips_VDecimalFraction: "roundtrips (decodeTag other) (VDecimalFraction e m)"
proof (rule roundtrips_from [where bs = "encodeDecimalFraction e m"])
  show "encode (VDecimalFraction e m) = Inr (encodeDecimalFraction e m)" by simp
next
  fix fuel rest
  let ?c = "retag type4 (encodeUint64 2) @ encodeInt64 e @ encodeInt64 m"
  have c: "decode (decodeTag other) (Suc (Suc fuel)) (?c @ rest)
           = Some (Inr (VArray [int_form (sint e), int_form (sint m)], length ?c))"
    using decode_exp_mantissa [of "decodeTag other" fuel e m rest] by simp
  have w: "tagged (uint tagDecimalFraction) (VArray [int_form (sint e), int_form (sint m)])
           = Some (VDecimalFraction e m)"
    by (simp add: tagged_table exp_mantissa_int_form)
  from decode_tagged [OF tag_numbers(5) c w]
  show "decode (decodeTag other) (depth (VDecimalFraction e m) + fuel)
          (encodeDecimalFraction e m @ rest)
        = Some (Inr (decoded_form (VDecimalFraction e m), length (encodeDecimalFraction e m)))"
    by (simp add: encodeDecimalFraction_def is_Indefinite_def numeral_3_eq_3)
qed

lemma roundtrips_VBigFloat: "roundtrips (decodeTag other) (VBigFloat e m)"
proof (rule roundtrips_from [where bs = "encodeBigFloat e m"])
  show "encode (VBigFloat e m) = Inr (encodeBigFloat e m)" by simp
next
  fix fuel rest
  let ?c = "retag type4 (encodeUint64 2) @ encodeInt64 e @ encodeInt64 m"
  have c: "decode (decodeTag other) (Suc (Suc fuel)) (?c @ rest)
           = Some (Inr (VArray [int_form (sint e), int_form (sint m)], length ?c))"
    using decode_exp_mantissa [of "decodeTag other" fuel e m rest] by simp
  have w: "tagged (uint tagBigFloat) (VArray [int_form (sint e), int_form (sint m)])
           = Some (VBigFloat e m)"
    by (simp add: tagged_table exp_mantissa_int_form)
  from decode_tagged [OF tag_numbers(6) c w]
  show "decode (decodeTag other) (depth (VBigFloat e m) + fuel) (encodeBigFloat e m @ rest)
        = Some (Inr (decoded_form (VBigFloat e m), length (encodeBigFloat e m)))"
    by (simp add: encodeBigFloat_def is_Indefinite_def numeral_3_eq_3)
qed

subsection \<open>Every value that \<^verbatim>\<open>encode\<close> takes\<close>

lemma supported_roundtrips:
  "supported v \<longrightarrow> roundtrips (decodeTag other) v"
  "list_all supported items \<longrightarrow> items_roundtrip (decodeTag other) items"
  "list_all (\<lambda>(key, value). supported key \<and> supported value) pairs
   \<longrightarrow> pairs_roundtrip (decodeTag other) pairs"
proof (induction v and items and pairs rule: encode_encodeArrayItems_encodeMapItems.induct)
  case 1
  show ?case
    by (rule impI, rule roundtrips_scalar [where bs = encodeNull])
      (simp_all add: decode_singletons)
next
  case (2 v)
  show ?case
  proof (cases v)
    case True
    then show ?thesis
      by (intro impI roundtrips_scalar [where bs = encodeTrue]) (simp_all add: decode_singletons)
  next
    case False
    then show ?thesis
      by (intro impI roundtrips_scalar [where bs = encodeFalse]) (simp_all add: decode_singletons)
  qed
next
  case (3 v)
  show ?case
    by (intro impI roundtrips_scalar [where bs = "encodeInt8 v"]) (simp_all add: decode_encodeInt8)
next
  case (4 v)
  show ?case
    by (intro impI roundtrips_scalar [where bs = "encodeUint8 v"])
      (simp_all add: decode_encodeUint8)
next
  case (5 v)
  show ?case
    by (intro impI roundtrips_scalar [where bs = "encodeInt16 v"])
      (simp_all add: decode_encodeInt16)
next
  case (6 v)
  show ?case
    by (intro impI roundtrips_scalar [where bs = "encodeUint16 v"])
      (simp_all add: decode_encodeUint16)
next
  case (7 v)
  show ?case
    by (intro impI roundtrips_scalar [where bs = "encodeInt32 v"])
      (simp_all add: decode_encodeInt32)
next
  case (8 v)
  show ?case
    by (intro impI roundtrips_scalar [where bs = "encodeUint32 v"])
      (simp_all add: decode_encodeUint32)
next
  case (9 v)
  show ?case
    by (intro impI roundtrips_scalar [where bs = "encodeInt64 v"])
      (simp_all add: decode_encodeInt64)
next
  case (10 v)
  show ?case by (intro impI roundtrips_VInt64)
next
  case (11 v)
  show ?case
    by (intro impI roundtrips_scalar [where bs = "encodeUint64 v"])
      (simp_all add: decode_encodeUint64)
next
  case (12 v)
  show ?case
    by (intro impI roundtrips_scalar [where bs = "encodeUint64 v"])
      (simp_all add: decode_encodeUint64)
next
  case (13 v)
  show ?case
    by (intro impI roundtrips_scalar [where bs = "encodeFloat32 v"])
      (simp_all add: decode_encodeFloat32)
next
  case (14 v)
  show ?case
    by (intro impI roundtrips_scalar [where bs = "encodeFloat64 v"])
      (simp_all add: decode_encodeFloat64)
next
  case (15 v)
  show ?case
    by (intro impI roundtrips_scalar [where bs = "encodeBytes v"])
      (simp_all add: decode_encodeBytes)
next
  case (16 v)
  show ?case
    by (intro impI roundtrips_scalar [where bs = "encodeText v"]) (simp_all add: decode_encodeText)
next
  case (17 v)
  then show ?case by (auto intro: roundtrips_array)
next
  case (18 v)
  then show ?case by (auto intro: roundtrips_map)
next
  case (19 v)
  show ?case
    by (intro impI roundtrips_scalar [where bs = encodeUndefined])
      (simp_all add: decode_singletons)
next
  case (20 v)
  show ?case by (auto intro: roundtrips_VTime)
next
  case (21 v)
  show ?case by (intro impI roundtrips_VEpoch)
next
  case (22 v)
  show ?case by (intro impI roundtrips_VEpochMicro)
next
  case (23 v)
  show ?case by (auto intro: roundtrips_VBigInt)
next
  case (24 e m)
  show ?case by (intro impI roundtrips_VDecimalFraction)
next
  case (25 e m)
  show ?case by (intro impI roundtrips_VBigFloat)
next
  case (26 v)
  show ?case by (auto intro: roundtrips_VCbor)
next
  case (27 v)
  show ?case by (auto intro: roundtrips_VRegexp)
next
  case (28 v)
  show ?case by (auto intro: roundtrips_VCborPrefix)
next
  case (29 v)
  show ?case by simp
next
  case (30 v)
  show ?case by simp
next
  case 31
  show ?case by (simp add: items_roundtrip_Nil)
next
  case (32 item items)
  show ?case
  proof
    assume s: "list_all supported (item # items)"
    then have r: "roundtrips (decodeTag other) item" using 32(1) by simp
    then obtain b where "encode item = Inr b" unfolding roundtrips_def by blast
    from 32(2) [OF this] s have "items_roundtrip (decodeTag other) items" by simp
    with r show "items_roundtrip (decodeTag other) (item # items)" by (rule items_roundtrip_Cons)
  qed
next
  case 33
  show ?case by (simp add: pairs_roundtrip_Nil)
next
  case (34 key "value" items)
  show ?case
  proof
    assume s: "list_all (\<lambda>(key, value). supported key \<and> supported value) ((key, value) # items)"
    then have r: "roundtrips (decodeTag other) key" using 34(1) by simp
    then obtain a where a: "encode key = Inr a" unfolding roundtrips_def by blast
    from 34(2) [OF a] s have r2: "roundtrips (decodeTag other) value" by simp
    then obtain b where b: "encode value = Inr b" unfolding roundtrips_def by blast
    from 34(3) [OF a b] s have "pairs_roundtrip (decodeTag other) items" by simp
    with r r2 show "pairs_roundtrip (decodeTag other) ((key, value) # items)"
      by (rule pairs_roundtrip_Cons)
  qed
qed


subsection \<open>The meaning of the decoded value\<close>








lemma tagged_content:
  "encodeDateTime s = encodeTag tagDateTime @ projr (encode (VText s))"
  "encodeEpoch i = encodeTag tagEpoch @ projr (encode (VInt64 i))"
  "encodeEpochMicro f = encodeTag tagEpoch @ projr (encode (VFloat64 f))"
  "0 \<le> n \<Longrightarrow> encodeBigNum n = encodeTag tagPosBignum @ projr (encode (VBytes (be_bytes (nat n))))"
  "n < 0 \<Longrightarrow> encodeBigNum n = encodeTag tagNegBignum @ projr (encode (VBytes (be_bytes (nat (- n)))))"
  "encodeDecimalFraction e m
   = encodeTag tagDecimalFraction @ projr (encode (VArray [VInt64 e, VInt64 m]))"
  "encodeBigFloat e m = encodeTag tagBigFloat @ projr (encode (VArray [VInt64 e, VInt64 m]))"
  "encodeCbor b = encodeTag tagCborEnc @ projr (encode (VBytes b))"
  "encodeRegexp s = encodeTag tagRegexp @ projr (encode (VText s))"
  "encodeCborPrefix b = encodeTag tagCborPrefix @ projr (encode (VBytes b))"
  by (simp_all add: encodeDateTime_def encodeEpoch_def encodeEpochMicro_def encodeBigNum_def
      encodeDecimalFraction_def encodeBigFloat_def encodeCbor_def encodeRegexp_def
      encodeCborPrefix_def)

text \<open>\<^verbatim>\<open>encode\<close> returns bytes for every value of a Go program but \<^verbatim>\<open>Indefinite\<close> and \<^verbatim>\<open>BreakStop\<close>.\<close>

lemma encode_returns: "supported v \<Longrightarrow> \<exists>bs. encode v = Inr bs"
  using supported_roundtrips(1) [of v "\<lambda>tag item n. None"] unfolding roundtrips_def by blast




end
